theory Spec2Isabelle
  imports Main "HOL-Library.Word" "HOL-Library.Multiset"
begin

unbundle bit_operations_syntax

section \<open>The buffer of z/buffer.go\<close>

text \<open>
  A shallow embedding of \<^verbatim>\<open>z.Buffer\<close>. Go's \<^verbatim>\<open>int\<close> has 64 bits. The sizes that a
  constructor receives are 64-bit words, so the fields of a buffer it returns are 64-bit
  values; the fields themselves are of type \<^typ>\<open>int\<close>, and where the code adds or
  subtracts values that no earlier comparison bounds, the 64-bit result is written out
  with \<open>add64\<close> and \<open>sub64\<close>: in \<^verbatim>\<open>Grow\<close>, and in the bounds checks of the
  random-access operations, whose offset is the caller's. A length or an offset that has
  passed a comparison with the cursor indexes memory that exists, and its sums are
  written without the wrap-around. A byte slice is a list of bytes; the length of
  \<^verbatim>\<open>b.buf\<close> is also its capacity, as it is for the slices the allocator and the
  mapping return. A nil slice is the empty list: no constructor produces an empty region.

  A runtime panic (an explicit \<^verbatim>\<open>panic\<close>, a slice expression out of range) and a fatal
  exit (\<^verbatim>\<open>log.Fatalf\<close>, a failed \<^verbatim>\<open>assert\<close>) are the two failures of a call; an error
  that a function returns is a value of the result.
\<close>

type_synonym byte = "8 word"

datatype BufferType = UseCalloc | UseMmap | UseInvalid

datatype failure = Panic | Fatal

datatype error = IOError | OutOfBounds | FileTooBig

record Buffer =
  buf :: "byte list"
  offset :: int
  curSz :: int
  maxSz :: int
  fd :: "int option"
  bufType :: BufferType

text \<open>
  The field \<open>fd\<close> stands for the backing file of a mapped buffer, by the length it was
  last truncated to; an off-heap buffer has none.
\<close>

type_synonym go_int = "64 word"

definition smallBufferSize :: int where
  "smallBufferSize = 64"

definition MaxInt32 :: int where
  "MaxInt32 = 2147483647"

definition MaxInt64 :: int where
  "MaxInt64 = 9223372036854775807"

definition add64 :: "int \<Rightarrow> int \<Rightarrow> int" where
  "add64 x y = signed_take_bit 63 (x + y)"

definition sub64 :: "int \<Rightarrow> int \<Rightarrow> int" where
  "sub64 x y = signed_take_bit 63 (x - y)"

subsection \<open>Collaborators outside the file\<close>

text \<open>
  Modelled from the spec: \<^verbatim>\<open>Calloc\<close>, the off-heap allocator, is not in the file. The
  spec gives it as \<^verbatim>\<open>allocate(n) -> contiguous zeroed byte region\<close>; a negative size
  has no region and panics. Memory is not bounded in the model.
\<close>

definition Calloc :: "int \<Rightarrow> failure + byte list" where
  "Calloc n = (if n < 0 then Inl Panic else Inr (replicate (nat n) 0))"

text \<open>
  Modelled from the spec: \<^verbatim>\<open>Mmap\<close> and the file primitives are not in the file. The spec
  gives the mapping as \<^verbatim>\<open>map(file, writable, maxLen) -> byte region\<close>: the region has
  \<open>maxLen\<close> bytes, and those of a fresh file read as zero. A mapping of no positive
  length and a truncation to a negative length are refused with an error; the file
  system fails in no other way in the model. The region shows the file: when the file is
  truncated to a length, the bytes of the region from that length on are no longer backed
  by it, and read as zero once the file is extended again.
\<close>

definition Mmap :: "int \<Rightarrow> error + byte list" where
  "Mmap n = (if n \<le> 0 then Inl IOError else Inr (replicate (nat n) 0))"

definition Truncate :: "int \<Rightarrow> error + int" where
  "Truncate n = (if n < 0 then Inl IOError else Inr n)"

definition truncated :: "byte list \<Rightarrow> int \<Rightarrow> byte list" where
  "truncated region flen = take (nat flen) region @ replicate (length region - nat flen) 0"

subsection \<open>Slice expressions, copy and the big-endian length\<close>

text \<open>
  \<open>slice_expr bs lo hi\<close> is the Go expression \<^verbatim>\<open>bs[lo:hi]\<close>, read as a value; it panics
  unless \<open>0 \<le> lo \<le> hi \<le> len(bs)\<close>. \<open>copy_to bs lo hi src\<close> is
  \<^verbatim>\<open>copy(bs[lo:hi], src)\<close>: the array after the call and the number of bytes copied.
  The source is read before the destination is written, as Go's \<^verbatim>\<open>copy\<close> does for
  overlapping slices.
\<close>

definition slice_expr :: "byte list \<Rightarrow> int \<Rightarrow> int \<Rightarrow> failure + byte list" where
  "slice_expr bs lo hi =
     (if 0 \<le> lo \<and> lo \<le> hi \<and> hi \<le> int (length bs)
      then Inr (take (nat (hi - lo)) (drop (nat lo) bs))
      else Inl Panic)"

definition copy_to :: "byte list \<Rightarrow> int \<Rightarrow> int \<Rightarrow> byte list \<Rightarrow> failure + (byte list \<times> int)" where
  "copy_to bs lo hi src =
     (if 0 \<le> lo \<and> lo \<le> hi \<and> hi \<le> int (length bs)
      then (let n = min (nat (hi - lo)) (length src)
            in Inr (take (nat lo) bs @ take n src @ drop (nat lo + n) bs, int n))
      else Inl Panic)"

definition PutUint32 :: "32 word \<Rightarrow> byte list" where
  "PutUint32 v =
     [ucast (drop_bit 24 v), ucast (drop_bit 16 v), ucast (drop_bit 8 v), ucast v]"

fun Uint32 :: "byte list \<Rightarrow> failure + 32 word" where
  "Uint32 (b0 # b1 # b2 # b3 # rest) =
     Inr (ucast b3 OR push_bit 8 (ucast b2) OR push_bit 16 (ucast b1) OR push_bit 24 (ucast b0))"
| "Uint32 bs = Inl Panic"

subsection \<open>Construction and accessors\<close>

definition fresh :: "byte list \<Rightarrow> int \<Rightarrow> int \<Rightarrow> int option \<Rightarrow> BufferType \<Rightarrow> failure + (error + Buffer)" where
  "fresh bs sz mx f t =
     (if bs = [] then Inl Panic
      else Inr (Inr \<lparr>buf = bs[0 := 0], offset = 1, curSz = sz, maxSz = mx, fd = f, bufType = t\<rparr>))"

definition NewBufferWith :: "go_int \<Rightarrow> go_int \<Rightarrow> BufferType \<Rightarrow> failure + (error + Buffer)" where
  "NewBufferWith sz0 maxSz0 t =
     (let sz = (if sz0 = 0 then smallBufferSize else sint sz0);
          mx = (if maxSz0 = 0 then MaxInt32 else sint maxSz0)
      in case t of
           UseCalloc \<Rightarrow>
             (case Calloc sz of
                Inl e \<Rightarrow> Inl e
              | Inr bs \<Rightarrow> fresh bs sz mx None t)
         | UseMmap \<Rightarrow>
             (case Truncate sz of
                Inl e \<Rightarrow> Inr (Inl e)
              | Inr flen \<Rightarrow>
                  (case Mmap mx of
                     Inl e \<Rightarrow> Inr (Inl e)
                   | Inr bs \<Rightarrow> fresh bs sz mx (Some flen) t))
         | UseInvalid \<Rightarrow> Inl Fatal)"

definition NewBuffer :: "go_int \<Rightarrow> failure + Buffer" where
  "NewBuffer sz =
     (case NewBufferWith sz (word_of_int MaxInt64) UseCalloc of
        Inl e \<Rightarrow> Inl e
      | Inr (Inl e) \<Rightarrow> Inl Fatal
      | Inr (Inr b) \<Rightarrow> Inr b)"

text \<open>
  \<^verbatim>\<open>NewMmapFile\<close> opens or creates the file at a path; \<open>file\<close> is what the file holds
  at that moment, nothing when it is created. The region shows the bytes of the file and
  zeros after them.
\<close>

definition NewMmapFile :: "go_int \<Rightarrow> go_int \<Rightarrow> go_int \<Rightarrow> byte list \<Rightarrow> failure + (error + Buffer)" where
  "NewMmapFile sz0 maxSz0 offset0 file =
     (let sz = (if sz0 = 0 then smallBufferSize else sint sz0);
          mx = (if maxSz0 = 0 then MaxInt32 else sint maxSz0);
          fileSize = int (length file)
      in if fileSize > mx then Inr (Inl FileTooBig)
         else
           (case Truncate (if fileSize > sz then fileSize else sz) of
              Inl e \<Rightarrow> Inr (Inl e)
            | Inr flen \<Rightarrow>
                (case Mmap mx of
                   Inl e \<Rightarrow> Inr (Inl e)
                 | Inr zeros \<Rightarrow>
                     Inr (Inr \<lparr>buf = file @ drop (length file) zeros,
                               offset = (if fileSize > sint offset0 then fileSize else sint offset0),
                               curSz = sz, maxSz = mx, fd = Some flen, bufType = UseMmap\<rparr>))))"



definition Bytes :: "Buffer \<Rightarrow> failure + byte list" where
  "Bytes b = slice_expr (buf b) 1 (offset b)"

definition Reset :: "Buffer \<Rightarrow> Buffer" where
  "Reset b = b\<lparr>offset := 1\<rparr>"

subsection \<open>Growth and allocation\<close>

definition Grow :: "Buffer \<Rightarrow> int \<Rightarrow> failure + Buffer" where
  "Grow b n =
     (if buf b = [] then Inl Panic
      else if sub64 (maxSz b) (offset b) < n then Inl Panic
      else if sub64 (curSz b) (offset b) > n then Inr b
      else
        (let growBy0 = add64 (curSz b) n;
             growBy1 = (if growBy0 > 2 ^ 30 then 2 ^ 30 else growBy0);
             growBy = (if n > growBy1 then n else growBy1);
             b1 = b\<lparr>curSz := add64 (curSz b) growBy\<rparr>
         in case bufType b1 of
              UseCalloc \<Rightarrow>
                (case Calloc (curSz b1) of
                   Inl e \<Rightarrow> Inl e
                 | Inr newBuf \<Rightarrow>
                     (case slice_expr (buf b1) 0 (offset b1) of
                        Inl e \<Rightarrow> Inl e
                      | Inr old \<Rightarrow>
                          (case copy_to newBuf 0 (int (length newBuf)) old of
                             Inl e \<Rightarrow> Inl e
                           | Inr (filled, k) \<Rightarrow> Inr (b1\<lparr>buf := filled\<rparr>))))
            | UseMmap \<Rightarrow>
                (case Truncate (curSz b1) of
                   Inl e \<Rightarrow> Inl Fatal
                 | Inr flen \<Rightarrow> Inr (b1\<lparr>buf := truncated (buf b1) flen, fd := Some flen\<rparr>))
            | UseInvalid \<Rightarrow> Inr b1))"

text \<open>
  A slice that \<^verbatim>\<open>Allocate\<close> returns is a view of the region; the model returns its
  bounds \<open>(lo, hi)\<close>, and the caller writes through it with \<open>copy_to\<close>.
\<close>

definition Allocate :: "Buffer \<Rightarrow> int \<Rightarrow> failure + (Buffer \<times> int \<times> int)" where
  "Allocate b n =
     (case Grow b n of
        Inl e \<Rightarrow> Inl e
      | Inr b1 \<Rightarrow>
          (let off = offset b1;
               b2 = b1\<lparr>offset := offset b1 + n\<rparr>
           in case slice_expr (buf b2) off (offset b2) of
                Inl e \<Rightarrow> Inl e
              | Inr view \<Rightarrow> Inr (b2, off, offset b2)))"

definition AllocateOffset :: "Buffer \<Rightarrow> int \<Rightarrow> failure + (Buffer \<times> int)" where
  "AllocateOffset b n =
     (case Grow b n of
        Inl e \<Rightarrow> Inl e
      | Inr b1 \<Rightarrow> (let b2 = b1\<lparr>offset := offset b1 + n\<rparr> in Inr (b2, offset b2 - n)))"

definition writeLen :: "Buffer \<Rightarrow> int \<Rightarrow> failure + Buffer" where
  "writeLen b sz =
     (case Allocate b 4 of
        Inl e \<Rightarrow> Inl e
      | Inr (b1, lo, hi) \<Rightarrow>
          (case copy_to (buf b1) lo hi (PutUint32 (word_of_int sz)) of
             Inl e \<Rightarrow> Inl e
           | Inr (bs, k) \<Rightarrow> Inr (b1\<lparr>buf := bs\<rparr>)))"

definition SliceAllocate :: "Buffer \<Rightarrow> int \<Rightarrow> failure + (Buffer \<times> int \<times> int)" where
  "SliceAllocate b sz =
     (case Grow b (4 + sz) of
        Inl e \<Rightarrow> Inl e
      | Inr b1 \<Rightarrow>
          (case writeLen b1 sz of
             Inl e \<Rightarrow> Inl e
           | Inr b2 \<Rightarrow> Allocate b2 sz))"

definition SliceAllocateOffset :: "Buffer \<Rightarrow> int \<Rightarrow> failure + (Buffer \<times> (int \<times> int) \<times> int)" where
  "SliceAllocateOffset b sz =
     (case Grow b (4 + sz) of
        Inl e \<Rightarrow> Inl e
      | Inr b1 \<Rightarrow>
          (case writeLen b1 sz of
             Inl e \<Rightarrow> Inl e
           | Inr b2 \<Rightarrow>
               (case Allocate b2 sz of
                  Inl e \<Rightarrow> Inl e
                | Inr (b3, lo, hi) \<Rightarrow> Inr (b3, (lo, hi), offset b3 - sz - 4))))"

subsection \<open>Reading and writing\<close>

text \<open>
  \<^verbatim>\<open>Slice\<close> returns the payload of the record at an offset and the offset of the next
  record, or \<open>0\<close> when the chain ends. The payload is only read by its callers, so the
  model returns its bytes.
\<close>

definition Slice :: "Buffer \<Rightarrow> int \<Rightarrow> failure + (byte list \<times> int)" where
  "Slice b off =
     (if off \<ge> offset b then Inr ([], 0)
      else
        (case slice_expr (buf b) off (int (length (buf b))) of
           Inl e \<Rightarrow> Inl e
         | Inr tail \<Rightarrow>
             (case Uint32 tail of
                Inl e \<Rightarrow> Inl e
              | Inr sz \<Rightarrow>
                  (let start = off + 4;
                       next = start + uint sz
                   in case slice_expr (buf b) start next of
                        Inl e \<Rightarrow> Inl e
                      | Inr res \<Rightarrow> Inr (res, if next \<ge> offset b then 0 else next)))))"

definition Data :: "Buffer \<Rightarrow> int \<Rightarrow> failure + byte list" where
  "Data b off = (if off > curSz b then Inl Panic else slice_expr (buf b) off (curSz b))"

definition Write :: "Buffer \<Rightarrow> byte list \<Rightarrow> failure + (Buffer \<times> int)" where
  "Write b p =
     (case Grow b (int (length p)) of
        Inl e \<Rightarrow> Inl e
      | Inr b1 \<Rightarrow>
          (case copy_to (buf b1) (offset b1) (int (length (buf b1))) p of
             Inl e \<Rightarrow> Inl e
           | Inr (bs, n) \<Rightarrow> Inr (b1\<lparr>buf := bs, offset := offset b1 + n\<rparr>, n)))"

text \<open>
  The three random-access operations return \<^verbatim>\<open>(value, error)\<close>; the model returns the
  buffer after the call with them, so that what the error path leaves behind can be
  stated.
\<close>

definition WriteAt :: "Buffer \<Rightarrow> byte list \<Rightarrow> int \<Rightarrow> failure + (Buffer \<times> int \<times> error option)" where
  "WriteAt b p off =
     (if add64 off (int (length p)) > int (length (buf b)) then Inr (b, 0, Some OutOfBounds)
      else
        (case copy_to (buf b) off (int (length (buf b))) p of
           Inl e \<Rightarrow> Inl e
         | Inr (bs, n) \<Rightarrow> Inr (b\<lparr>buf := bs\<rparr>, n, None)))"

definition WriteSliceAt :: "Buffer \<Rightarrow> byte list \<Rightarrow> int \<Rightarrow> failure + (Buffer \<times> int \<times> error option)" where
  "WriteSliceAt b p off =
     (if add64 (add64 off 4) (int (length p)) > int (length (buf b))
      then Inr (b, 0, Some OutOfBounds)
      else
        (case copy_to (buf b) off (add64 off 4) (PutUint32 (word_of_int (int (length p)))) of
           Inl e \<Rightarrow> Inl e
         | Inr (bs1, k) \<Rightarrow>
             (case copy_to bs1 (add64 off 4) (int (length bs1)) p of
                Inl e \<Rightarrow> Inl e
              | Inr (bs2, n) \<Rightarrow> Inr (b\<lparr>buf := bs2\<rparr>, n, None))))"

definition ReadAt :: "Buffer \<Rightarrow> int \<Rightarrow> int \<Rightarrow> failure + (Buffer \<times> byte list \<times> error option)" where
  "ReadAt b n off =
     (if add64 off n > int (length (buf b)) then Inr (b, [], Some OutOfBounds)
      else
        (case slice_expr (buf b) off (add64 off n) of
           Inl e \<Rightarrow> Inl e
         | Inr res \<Rightarrow> Inr (b, res, None)))"

subsection \<open>The state invariant\<close>

text \<open>
  The cursor lies between the reserved byte and the capacity, below the maximum, and the
  region has the length its strategy gives it: the capacity for an off-heap region, the
  mapped length for a mapped file.
\<close>

definition valid :: "Buffer \<Rightarrow> bool" where
  "valid b =
     (1 \<le> offset b \<and> offset b \<le> curSz b \<and> offset b \<le> maxSz b
      \<and> int (length (buf b)) =
          (case bufType b of UseCalloc \<Rightarrow> curSz b | UseMmap \<Rightarrow> maxSz b | UseInvalid \<Rightarrow> - 1))"

text \<open>
  The capacity and the maximum of a constructed buffer are 64-bit values; with the
  invariant, so is the cursor. An off-heap buffer whose maximum is not positive is not
  valid, and still usable when the subtraction of the cursor from the maximum wraps
  around: \<open>sized\<close> is the part of the invariant that the growth of such a buffer keeps.
\<close>

definition sound :: "Buffer \<Rightarrow> bool" where
  "sound b = (valid b \<and> curSz b < 2 ^ 63 \<and> maxSz b < 2 ^ 63)"

definition sized :: "Buffer \<Rightarrow> bool" where
  "sized b =
     (1 \<le> offset b \<and> offset b \<le> curSz b \<and> curSz b < 2 ^ 63
      \<and> (case bufType b of
            UseCalloc \<Rightarrow> int (length (buf b)) = curSz b
          | UseMmap \<Rightarrow> int (length (buf b)) = maxSz b \<and> offset b \<le> maxSz b \<and> maxSz b < 2 ^ 63
          | UseInvalid \<Rightarrow> False))"

subsection \<open>Sequences of operations\<close>

text \<open>
  The operations that change a buffer, as a caller issues them one after the other; a
  run stops at the first failure. An error that \<^verbatim>\<open>WriteAt\<close> or \<^verbatim>\<open>WriteSliceAt\<close>
  returns is not a failure: the run goes on with the buffer they leave.
\<close>

datatype operation =
    Op_Grow int
  | Op_Allocate int
  | Op_AllocateOffset int
  | Op_Write "byte list"
  | Op_SliceAllocate int
  | Op_SliceAllocateOffset int
  | Op_WriteAt "byte list" int
  | Op_WriteSliceAt "byte list" int
  | Op_Reset

fun step :: "Buffer \<Rightarrow> operation \<Rightarrow> failure + Buffer" where
  "step b (Op_Grow n) = Grow b n"
| "step b (Op_Allocate n) = map_sum id fst (Allocate b n)"
| "step b (Op_AllocateOffset n) = map_sum id fst (AllocateOffset b n)"
| "step b (Op_Write p) = map_sum id fst (Write b p)"
| "step b (Op_SliceAllocate n) = map_sum id fst (SliceAllocate b n)"
| "step b (Op_SliceAllocateOffset n) = map_sum id fst (SliceAllocateOffset b n)"
| "step b (Op_WriteAt p off) = map_sum id fst (WriteAt b p off)"
| "step b (Op_WriteSliceAt p off) = map_sum id fst (WriteSliceAt b p off)"
| "step b Op_Reset = Inr (Reset b)"

fun run :: "Buffer \<Rightarrow> operation list \<Rightarrow> failure + Buffer" where
  "run b [] = Inr b"
| "run b (x # xs) = (case step b x of Inl e \<Rightarrow> Inl e | Inr b1 \<Rightarrow> run b1 xs)"

subsection \<open>Writing records and walking the chain\<close>

text \<open>
  A caller writes a record by asking \<^verbatim>\<open>SliceAllocate\<close> for a span of the payload's length
  and copying the payload into it. The chain is walked as the loops of the sorter do it:
  from an offset, while the offset is neither the sentinel 0 nor at the end, \<^verbatim>\<open>Slice\<close>
  gives the payload and the next offset. \<open>walk\<close> returns, for every call of \<^verbatim>\<open>Slice\<close>
  it makes, the offset, the payload and the next offset.
\<close>

definition writeRecord :: "Buffer \<Rightarrow> byte list \<Rightarrow> failure + Buffer" where
  "writeRecord b p =
     (case SliceAllocate b (int (length p)) of
        Inl e \<Rightarrow> Inl e
      | Inr (b1, lo, hi) \<Rightarrow>
          (case copy_to (buf b1) lo hi p of
             Inl e \<Rightarrow> Inl e
           | Inr (bs, k) \<Rightarrow> Inr (b1\<lparr>buf := bs\<rparr>)))"

fun writeRecords :: "Buffer \<Rightarrow> byte list list \<Rightarrow> failure + Buffer" where
  "writeRecords b [] = Inr b"
| "writeRecords b (p # ps) =
     (case writeRecord b p of Inl e \<Rightarrow> Inl e | Inr b1 \<Rightarrow> writeRecords b1 ps)"

function walk :: "Buffer \<Rightarrow> int \<Rightarrow> int \<Rightarrow> failure + (int \<times> byte list \<times> int) list" where
  "walk b nxt e =
     (if nxt \<noteq> 0 \<and> nxt < e
      then (case Slice b nxt of
              Inl err \<Rightarrow> Inl err
            | Inr (p, n) \<Rightarrow>
                (case walk b n e of
                   Inl err \<Rightarrow> Inl err
                 | Inr rs \<Rightarrow> Inr ((nxt, p, n) # rs)))
      else Inr [])"
  by pat_completeness auto
termination
proof (relation "measure (\<lambda>(b, nxt, e). if nxt = 0 then 0 else 1 + nat (e - nxt))")
  show "wf (measure (\<lambda>(b, nxt, e). if nxt = 0 then 0 else 1 + nat (e - nxt)))" by simp
next
  fix b :: Buffer and nxt e :: int and x2 :: "byte list \<times> int" and p n
  assume lt: "nxt \<noteq> 0 \<and> nxt < e" and s: "Slice b nxt = Inr x2" and x2: "(p, n) = x2"
  have "n = 0 \<or> nxt < n"
  proof (cases "n = 0")
    case True
    then show ?thesis by simp
  next
    case False
    with s x2 obtain sz :: "32 word" where "n = nxt + 4 + uint sz"
      by (auto simp: Slice_def Let_def split: if_splits sum.splits)
    moreover have "0 \<le> uint sz" by simp
    ultimately show ?thesis by linarith
  qed
  with lt
  show "((b, n, e), (b, nxt, e)) \<in> measure (\<lambda>(b, nxt, e). if nxt = 0 then 0 else 1 + nat (e - nxt))"
    by auto
qed

text \<open>
  The bytes of a record, and what a walk over a run of records finds: each payload at
  its offset, with the offset after it, the last one with whatever the last \<^verbatim>\<open>Slice\<close>
  returns.
\<close>

definition record_bytes :: "byte list \<Rightarrow> byte list" where
  "record_bytes p = PutUint32 (word_of_int (int (length p))) @ p"

fun layout :: "int \<Rightarrow> int \<Rightarrow> byte list list \<Rightarrow> (int \<times> byte list \<times> int) list" where
  "layout off lst [] = []"
| "layout off lst [p] = [(off, p, lst)]"
| "layout off lst (p # q # ps) =
     (off, p, off + 4 + int (length p)) # layout (off + 4 + int (length p)) lst (q # ps)"

subsection \<open>The sorter\<close>

text \<open>
  The fields of \<^verbatim>\<open>sortHelper\<close> are passed as arguments: the comparator \<open>lessf\<close> (\<^verbatim>\<open>less\<close> in the source), the chunk
  offsets, the buffer \<open>b\<close> and the scratch buffer \<open>tmp\<close>; each function returns the two
  buffers as it leaves them. The field \<^verbatim>\<open>small\<close> is emptied at every use and is local.

  A slice variable that aliases an array (\<^verbatim>\<open>left\<close>, \<^verbatim>\<open>right\<close>, \<^verbatim>\<open>ls\<close>, \<^verbatim>\<open>rs\<close>) is a
  view: its bounds \<open>(lo, hi)\<close> in the array, read from the array as it is at that
  moment. The capacity of a view reaches to the end of its array.
\<close>

type_synonym view = "int \<times> int"

definition bytes_of :: "byte list \<Rightarrow> view \<Rightarrow> byte list" where
  "bytes_of arr v = take (nat (snd v - fst v)) (drop (nat (fst v)) arr)"

definition rawSlice :: "byte list \<Rightarrow> view \<Rightarrow> failure + view" where
  "rawSlice arr v =
     (case Uint32 (bytes_of arr v) of
        Inl e \<Rightarrow> Inl e
      | Inr sz \<Rightarrow>
          (if fst v + (4 + uint sz) \<le> int (length arr)
           then Inr (fst v, fst v + (4 + uint sz))
           else Inl Panic))"

text \<open>
  \<^verbatim>\<open>sort.Slice\<close> belongs to the standard library. The model takes it as the argument
  \<open>srt\<close>: a function from a comparator and a list to the list sorted. The comparator
  that \<^verbatim>\<open>sortSmall\<close> hands to it reads the two payloads with \<^verbatim>\<open>Slice\<close>; the offsets it
  compares were walked with \<^verbatim>\<open>Slice\<close> just before, on the same buffer, so the reads
  cannot fail, and the model gives a failed read the value \<open>False\<close>.
\<close>

definition payload_less :: "(byte list \<Rightarrow> byte list \<Rightarrow> bool) \<Rightarrow> Buffer \<Rightarrow> int \<Rightarrow> int \<Rightarrow> bool" where
  "payload_less lessf b i j =
     (case Slice b i of
        Inl e \<Rightarrow> False
      | Inr (left, n) \<Rightarrow>
          (case Slice b j of
             Inl e \<Rightarrow> False
           | Inr (right, m) \<Rightarrow> lessf left right))"

function collect :: "Buffer \<Rightarrow> int \<Rightarrow> int \<Rightarrow> int list \<Rightarrow> failure + int list" where
  "collect b nxt e small =
     (if nxt \<noteq> 0 \<and> nxt < e
      then (case Slice b nxt of
              Inl err \<Rightarrow> Inl err
            | Inr (p, n) \<Rightarrow> collect b n e (small @ [nxt]))
      else Inr small)"
  by pat_completeness auto
termination
proof (relation "measure (\<lambda>(b, nxt, e, small). if nxt = 0 then 0 else 1 + nat (e - nxt))")
  show "wf (measure (\<lambda>(b, nxt, e, small). if nxt = 0 then 0 else 1 + nat (e - nxt)))" by simp
next
  fix b :: Buffer and nxt e :: int and small :: "int list" and x2 :: "byte list \<times> int" and p n
  assume lt: "nxt \<noteq> 0 \<and> nxt < e" and s: "Slice b nxt = Inr x2" and x2: "(p, n) = x2"
  have "n = 0 \<or> nxt < n"
  proof (cases "n = 0")
    case True
    then show ?thesis by simp
  next
    case False
    with s x2 obtain sz :: "32 word" where "n = nxt + 4 + uint sz"
      by (auto simp: Slice_def Let_def split: if_splits sum.splits)
    moreover have "0 \<le> uint sz" by simp
    ultimately show ?thesis by linarith
  qed
  with lt
  show "((b, n, e, small @ [nxt]), (b, nxt, e, small))
      \<in> measure (\<lambda>(b, nxt, e, small). if nxt = 0 then 0 else 1 + nat (e - nxt))"
    by auto
qed

fun writeRaw :: "Buffer \<Rightarrow> Buffer \<Rightarrow> int list \<Rightarrow> failure + Buffer" where
  "writeRaw b tmp [] = Inr tmp"
| "writeRaw b tmp (off # offs) =
     (case slice_expr (buf b) off (int (length (buf b))) of
        Inl e \<Rightarrow> Inl e
      | Inr rest \<Rightarrow>
          (case rawSlice (buf b) (off, int (length (buf b))) of
             Inl e \<Rightarrow> Inl e
           | Inr v \<Rightarrow>
               (case Write tmp (bytes_of (buf b) v) of
                  Inl e \<Rightarrow> Inl e
                | Inr (tmp1, n) \<Rightarrow> writeRaw b tmp1 offs)))"

definition sortSmall ::
  "((int \<Rightarrow> int \<Rightarrow> bool) \<Rightarrow> int list \<Rightarrow> int list) \<Rightarrow> (byte list \<Rightarrow> byte list \<Rightarrow> bool)
    \<Rightarrow> Buffer \<Rightarrow> Buffer \<Rightarrow> int \<Rightarrow> int \<Rightarrow> failure + (Buffer \<times> Buffer)" where
  "sortSmall srt lessf b tmp start e =
     (case collect b start e [] of
        Inl err \<Rightarrow> Inl err
      | Inr small0 \<Rightarrow>
          (case writeRaw b (Reset tmp) (srt (payload_less lessf b) small0) of
             Inl err \<Rightarrow> Inl err
           | Inr tmp1 \<Rightarrow>
               (case Bytes tmp1 of
                  Inl err \<Rightarrow> Inl err
                | Inr src \<Rightarrow>
                    (case copy_to (buf b) start e src of
                       Inl err \<Rightarrow> Inl err
                     | Inr (bs, n) \<Rightarrow>
                         (if e - start = n then Inr (b\<lparr>buf := bs\<rparr>, tmp1) else Inl Fatal)))))"

text \<open>
  The loop of \<^verbatim>\<open>merge\<close>. \<open>tarr\<close> is the array of the scratch buffer, which holds the
  left run and does not change; \<open>bs\<close> is the array of \<open>b\<close>, which the loop writes and
  from which it reads the right run. \<^verbatim>\<open>copyLeft\<close> and \<^verbatim>\<open>copyRight\<close> are written out in
  the two branches.
\<close>

function mergeLoop ::
  "(byte list \<Rightarrow> byte list \<Rightarrow> bool) \<Rightarrow> byte list \<Rightarrow> byte list \<Rightarrow> view \<Rightarrow> view \<Rightarrow> int \<Rightarrow> int
    \<Rightarrow> failure + byte list" where
  "mergeLoop lessf tarr bs left right start e =
     (if start < e
      then
        (if snd left - fst left = 0
         then (case copy_to bs start e (bytes_of bs right) of
                 Inl err \<Rightarrow> Inl err
               | Inr (bs1, n) \<Rightarrow> if snd right - fst right = n then Inr bs1 else Inl Fatal)
         else if snd right - fst right = 0
         then (case copy_to bs start e (bytes_of tarr left) of
                 Inl err \<Rightarrow> Inl err
               | Inr (bs1, n) \<Rightarrow> if snd left - fst left = n then Inr bs1 else Inl Fatal)
         else
           (case rawSlice tarr left of
              Inl err \<Rightarrow> Inl err
            | Inr ls \<Rightarrow>
                (case rawSlice bs right of
                   Inl err \<Rightarrow> Inl err
                 | Inr rs \<Rightarrow>
                     (if lessf (bytes_of tarr (fst ls + 4, snd ls)) (bytes_of bs (fst rs + 4, snd rs))
                      then
                        (case copy_to bs start (int (length bs)) (bytes_of tarr ls) of
                           Inl err \<Rightarrow> Inl err
                         | Inr (bs1, n) \<Rightarrow>
                             (if snd ls - fst ls \<noteq> n then Inl Fatal
                              else if snd ls - fst ls > snd left - fst left then Inl Panic
                              else mergeLoop lessf tarr bs1 (fst left + (snd ls - fst ls), snd left) right
                                     (start + (snd ls - fst ls)) e))
                      else
                        (case copy_to bs start (int (length bs)) (bytes_of bs rs) of
                           Inl err \<Rightarrow> Inl err
                         | Inr (bs1, n) \<Rightarrow>
                             (if snd rs - fst rs \<noteq> n then Inl Fatal
                              else if snd rs - fst rs > snd right - fst right then Inl Panic
                              else mergeLoop lessf tarr bs1 left (fst right + (snd rs - fst rs), snd right)
                                     (start + (snd rs - fst rs)) e))))))
      else Inr bs)"
  by pat_completeness auto
termination
proof (relation "measure (\<lambda>(lessf, tarr, bs, left, right, start, e). nat (e - start))")
  show "wf (measure (\<lambda>(lessf, tarr, bs, left, right, start, e). nat (e - start)))" by simp
next
  fix lessf :: "byte list \<Rightarrow> byte list \<Rightarrow> bool" and tarr bs bs1 :: "byte list"
    and left right ls rs :: view and start e n :: int and x2 :: "byte list \<times> int"
  assume lt: "start < e" and ls: "rawSlice tarr left = Inr ls"
  from ls obtain sz :: "32 word" where "snd ls - fst ls = 4 + uint sz"
    by (auto simp: rawSlice_def split: sum.splits if_splits)
  moreover have "0 \<le> uint sz" by simp
  ultimately have "0 < snd ls - fst ls" by linarith
  with lt
  show "((lessf, tarr, bs1, (fst left + (snd ls - fst ls), snd left), right, start + (snd ls - fst ls), e),
         (lessf, tarr, bs, left, right, start, e))
      \<in> measure (\<lambda>(lessf, tarr, bs, left, right, start, e). nat (e - start))"
    by simp
next
  fix lessf :: "byte list \<Rightarrow> byte list \<Rightarrow> bool" and tarr bs bs1 :: "byte list"
    and left right ls rs :: view and start e n :: int and x2 :: "byte list \<times> int"
  assume lt: "start < e" and rs: "rawSlice bs right = Inr rs"
  from rs obtain sz :: "32 word" where "snd rs - fst rs = 4 + uint sz"
    by (auto simp: rawSlice_def split: sum.splits if_splits)
  moreover have "0 \<le> uint sz" by simp
  ultimately have "0 < snd rs - fst rs" by linarith
  with lt
  show "((lessf, tarr, bs1, left, (fst right + (snd rs - fst rs), snd right), start + (snd rs - fst rs), e),
         (lessf, tarr, bs, left, right, start, e))
      \<in> measure (\<lambda>(lessf, tarr, bs, left, right, start, e). nat (e - start))"
    by simp
qed

definition merge ::
  "(byte list \<Rightarrow> byte list \<Rightarrow> bool) \<Rightarrow> Buffer \<Rightarrow> Buffer \<Rightarrow> view \<Rightarrow> view \<Rightarrow> int \<Rightarrow> int
    \<Rightarrow> failure + (Buffer \<times> Buffer)" where
  "merge lessf b tmp left right start e =
     (if snd left - fst left = 0 \<or> snd right - fst right = 0 then Inr (b, tmp)
      else
        (case Write (Reset tmp) (bytes_of (buf b) left) of
           Inl err \<Rightarrow> Inl err
         | Inr (tmp1, n) \<Rightarrow>
             (case Bytes tmp1 of
                Inl err \<Rightarrow> Inl err
              | Inr staged \<Rightarrow>
                  (case mergeLoop lessf (buf tmp1) (buf b) (1, offset tmp1) right start e of
                     Inl err \<Rightarrow> Inl err
                   | Inr bs \<Rightarrow> Inr (b\<lparr>buf := bs\<rparr>, tmp1)))))"

function sort_rec ::
  "(byte list \<Rightarrow> byte list \<Rightarrow> bool) \<Rightarrow> int list \<Rightarrow> Buffer \<Rightarrow> Buffer \<Rightarrow> int \<Rightarrow> int
    \<Rightarrow> failure + (Buffer \<times> Buffer \<times> view)" where
  "sort_rec lessf offsets b tmp lo hi =
     (if \<not> lo \<le> hi then Inl Fatal
      else if lo < 0 \<or> int (length offsets) \<le> lo \<or> int (length offsets) \<le> hi then Inl Panic
      else
        (let mid = lo + (hi - lo) div 2;
             loff = offsets ! nat lo;
             hoff = offsets ! nat hi
         in if lo = mid
            then (case slice_expr (buf b) loff hoff of
                    Inl err \<Rightarrow> Inl err
                  | Inr res \<Rightarrow> Inr (b, tmp, (loff, hoff)))
            else
              (case sort_rec lessf offsets b tmp lo mid of
                 Inl err \<Rightarrow> Inl err
               | Inr (b1, tmp1, left) \<Rightarrow>
                   (case sort_rec lessf offsets b1 tmp1 mid hi of
                      Inl err \<Rightarrow> Inl err
                    | Inr (b2, tmp2, right) \<Rightarrow>
                        (case merge lessf b2 tmp2 left right loff hoff of
                           Inl err \<Rightarrow> Inl err
                         | Inr (b3, tmp3) \<Rightarrow>
                             (case slice_expr (buf b3) loff hoff of
                                Inl err \<Rightarrow> Inl err
                              | Inr res \<Rightarrow> Inr (b3, tmp3, (loff, hoff))))))))"
  by pat_completeness auto
termination
  by (relation "measure (\<lambda>(lessf, offsets, b, tmp, lo, hi). nat (hi - lo))") auto

function chunkOffsets :: "Buffer \<Rightarrow> int \<Rightarrow> int \<Rightarrow> int \<Rightarrow> int list \<Rightarrow> failure + int list" where
  "chunkOffsets b nxt e cnt offsets =
     (if nxt \<noteq> 0 \<and> nxt < e
      then (case Slice b nxt of
              Inl err \<Rightarrow> Inl err
            | Inr (p, n) \<Rightarrow>
                chunkOffsets b n e (cnt + 1)
                  (if cnt mod 1024 = 0 then offsets @ [nxt] else offsets))
      else Inr offsets)"
  by pat_completeness auto
termination
proof (relation "measure (\<lambda>(b, nxt, e, cnt, offsets). if nxt = 0 then 0 else 1 + nat (e - nxt))")
  show "wf (measure (\<lambda>(b, nxt, e, cnt, offsets). if nxt = 0 then 0 else 1 + nat (e - nxt)))"
    by simp
next
  fix b :: Buffer and nxt e cnt :: int and offsets :: "int list"
    and x2 :: "byte list \<times> int" and p n
  assume lt: "nxt \<noteq> 0 \<and> nxt < e" and s: "Slice b nxt = Inr x2" and x2: "(p, n) = x2"
  have "n = 0 \<or> nxt < n"
  proof (cases "n = 0")
    case True
    then show ?thesis by simp
  next
    case False
    with s x2 obtain sz :: "32 word" where "n = nxt + 4 + uint sz"
      by (auto simp: Slice_def Let_def split: if_splits sum.splits)
    moreover have "0 \<le> uint sz" by simp
    ultimately show ?thesis by linarith
  qed
  with lt
  show "((b, n, e, cnt + 1, if cnt mod 1024 = 0 then offsets @ [nxt] else offsets),
         (b, nxt, e, cnt, offsets))
      \<in> measure (\<lambda>(b, nxt, e, cnt, offsets). if nxt = 0 then 0 else 1 + nat (e - nxt))"
    by auto
qed

fun sortChunks ::
  "((int \<Rightarrow> int \<Rightarrow> bool) \<Rightarrow> int list \<Rightarrow> int list) \<Rightarrow> (byte list \<Rightarrow> byte list \<Rightarrow> bool)
    \<Rightarrow> Buffer \<Rightarrow> Buffer \<Rightarrow> int \<Rightarrow> int list \<Rightarrow> failure + (Buffer \<times> Buffer)" where
  "sortChunks srt lessf b tmp left [] = Inr (b, tmp)"
| "sortChunks srt lessf b tmp left (off # offs) =
     (case sortSmall srt lessf b tmp left off of
        Inl err \<Rightarrow> Inl err
      | Inr (b1, tmp1) \<Rightarrow> sortChunks srt lessf b1 tmp1 off offs)"

text \<open>
  The size of the scratch buffer is \<^verbatim>\<open>int(float64((end-start)/2) * 1.1)\<close>; the model
  takes the product exactly and rounds it down, which is what the floating-point product
  truncates to for spans far below \<open>2^50\<close> bytes. The size only sets the first capacity
  of the scratch buffer, which grows as it is written. The deferred \<^verbatim>\<open>Release\<close> frees
  the scratch buffer and leaves \<open>b\<close> as it is.
\<close>

definition szTmp :: "int \<Rightarrow> int \<Rightarrow> int" where
  "szTmp start e = ((e - start) div 2) * 11 div 10"

definition SortSliceBetween ::
  "((int \<Rightarrow> int \<Rightarrow> bool) \<Rightarrow> int list \<Rightarrow> int list) \<Rightarrow> Buffer \<Rightarrow> int \<Rightarrow> int
    \<Rightarrow> (byte list \<Rightarrow> byte list \<Rightarrow> bool) \<Rightarrow> failure + Buffer" where
  "SortSliceBetween srt b start e lessf =
     (if start \<ge> e then Inr b
      else if start = 0 then Inl Panic
      else
        (case chunkOffsets b start e 0 [] of
           Inl err \<Rightarrow> Inl err
         | Inr offsets0 \<Rightarrow>
             (if \<not> length offsets0 > 0 then Inl Fatal
              else
                (let offsets = (if last offsets0 \<noteq> e then offsets0 @ [e] else offsets0)
                 in case NewBuffer (word_of_int (szTmp start e)) of
                      Inl err \<Rightarrow> Inl err
                    | Inr tmp \<Rightarrow>
                        (case sortChunks srt lessf b tmp (hd offsets) (tl offsets) of
                           Inl err \<Rightarrow> Inl err
                         | Inr (b1, tmp1) \<Rightarrow>
                             (case sort_rec lessf offsets b1 tmp1 0 (int (length offsets) - 1) of
                                Inl err \<Rightarrow> Inl err
                              | Inr (b2, tmp2, res) \<Rightarrow> Inr b2))))))"

definition SortSlice ::
  "((int \<Rightarrow> int \<Rightarrow> bool) \<Rightarrow> int list \<Rightarrow> int list) \<Rightarrow> Buffer
    \<Rightarrow> (byte list \<Rightarrow> byte list \<Rightarrow> bool) \<Rightarrow> failure + Buffer" where
  "SortSlice srt b lessf = SortSliceBetween srt b 1 (offset b) lessf"

subsection \<open>A comparator and a sort for concrete runs\<close>

text \<open>
  Where a statement is about one concrete run, the comparator is the lexicographic order
  of the bytes and \<open>srt\<close> is insertion sort, which keeps the order of elements that
  compare equal.
\<close>

fun bytes_less :: "byte list \<Rightarrow> byte list \<Rightarrow> bool" where
  "bytes_less [] [] = False"
| "bytes_less [] (y # ys) = True"
| "bytes_less (x # xs) [] = False"
| "bytes_less (x # xs) (y # ys) = (x < y \<or> (x = y \<and> bytes_less xs ys))"

fun insert_sorted :: "('a \<Rightarrow> 'a \<Rightarrow> bool) \<Rightarrow> 'a \<Rightarrow> 'a list \<Rightarrow> 'a list" where
  "insert_sorted lt x [] = [x]"
| "insert_sorted lt x (y # ys) = (if lt x y then x # y # ys else y # insert_sorted lt x ys)"

definition insertion_sort :: "('a \<Rightarrow> 'a \<Rightarrow> bool) \<Rightarrow> 'a list \<Rightarrow> 'a list" where
  "insertion_sort lt xs = foldl (\<lambda>acc x. insert_sorted lt x acc) [] xs"

section \<open>64-bit sums and the growth of the region\<close>

lemma add64_id: "- (2 ^ 63) \<le> x + y \<Longrightarrow> x + y < 2 ^ 63 \<Longrightarrow> add64 x y = x + y"
  by (simp add: add64_def signed_take_bit_int_eq_self)

lemma sub64_id: "- (2 ^ 63) \<le> x - y \<Longrightarrow> x - y < 2 ^ 63 \<Longrightarrow> sub64 x y = x - y"
  by (simp add: sub64_def signed_take_bit_int_eq_self)

lemma sub64_less: "sub64 x y < 2 ^ 63"
  using signed_take_bit_int_less_exp [of 63 "x - y"] by (simp add: sub64_def)

lemma add64_wrap:
  assumes "2 ^ 63 \<le> x + y" and "x + y < 2 ^ 64"
  shows "add64 x y = x + y - 2 ^ 64"
proof -
  have "signed_take_bit 63 (x + y) = take_bit 64 (x + y + 2 ^ 63) - 2 ^ 63"
    by (simp add: signed_take_bit_eq_take_bit_shift)
  moreover have "take_bit 64 (x + y + 2 ^ 63) = (x + y + 2 ^ 63) mod 2 ^ 64"
    by (simp add: take_bit_eq_mod)
  moreover have "(x + y + 2 ^ 63) mod 2 ^ 64 = x + y + 2 ^ 63 - 2 ^ 64"
  proof -
    have "(x + y + 2 ^ 63 - 2 ^ 64) mod 2 ^ 64 = x + y + 2 ^ 63 - 2 ^ 64"
      using assms by (intro mod_pos_pos_trivial) simp_all
    moreover have "(x + y + 2 ^ 63 - 2 ^ 64) mod 2 ^ 64 = (x + y + 2 ^ 63) mod (2 ^ 64 :: int)"
      by (metis minus_mod_self2)
    ultimately show ?thesis by simp
  qed
  ultimately show ?thesis by (simp add: add64_def)
qed

lemma length_copy_to:
  "copy_to bs lo hi src = Inr (bs', k) \<Longrightarrow> length bs' = length bs"
  by (auto simp: copy_to_def Let_def split: if_splits)

lemma length_truncated [simp]: "length (truncated bs flen) = length bs"
  by (simp add: truncated_def)

lemma take_truncated:
  "k \<le> flen \<Longrightarrow> take (nat k) (truncated bs flen) = take (nat k) bs"
  by (simp add: truncated_def min_def)

lemma copy_to_fresh:
  assumes "0 \<le> k" and "k \<le> c" and "length src = nat k"
  shows "copy_to (replicate (nat c) 0) 0 c src = Inr (src @ replicate (nat (c - k)) 0, k)"
proof -
  have m: "min (nat c) (length src) = length src" using assms by simp
  have d: "nat c - nat k = nat (c - k)" using assms by (simp add: nat_diff_distrib)
  show ?thesis using assms by (simp add: copy_to_def Let_def m d)
qed

text \<open>
  The capacity that \<^verbatim>\<open>Grow\<close> computes: the sum \<open>c\<close> of the capacity and the increment
  when it is below \<open>2^63\<close>, a negative value when it is not.
\<close>

lemma grown_capacity:
  assumes "0 \<le> cur" and "cur < 2 ^ 63" and "0 \<le> n" and "n < 2 ^ 63"
  shows "cur + max n (min (cur + n) (2 ^ 30)) < 2 ^ 63 \<Longrightarrow>
      add64 cur (max n (min (add64 cur n) (2 ^ 30))) = cur + max n (min (cur + n) (2 ^ 30))"
    and "2 ^ 63 \<le> cur + max n (min (cur + n) (2 ^ 30)) \<Longrightarrow>
      add64 cur (max n (min (add64 cur n) (2 ^ 30))) < 0"
proof -
  let ?g = "max n (min (cur + n) (2 ^ 30))"
  have gn: "n \<le> ?g" by simp
  have g0: "0 \<le> ?g" using assms(3) by simp
  have gle: "?g \<le> cur + n" using assms(1,3) by (simp add: min_def max_def)
  have p64: "(2::int) ^ 64 = 2 ^ 63 + 2 ^ 63" by simp
  {
    assume c: "cur + ?g < 2 ^ 63"
    then have "cur + n < 2 ^ 63" using gn by linarith
    then have a0: "add64 cur n = cur + n" using assms(1,3) by (intro add64_id) simp_all
    have "add64 cur ?g = cur + ?g" using c assms(1) g0 by (intro add64_id) simp_all
    then show "add64 cur (max n (min (add64 cur n) (2 ^ 30))) = cur + ?g"
      unfolding a0 .
  }
  {
    assume big: "2 ^ 63 \<le> cur + ?g"
    show "add64 cur (max n (min (add64 cur n) (2 ^ 30))) < 0"
    proof (cases "cur + n < 2 ^ 63")
      case True
      then have a0: "add64 cur n = cur + n" using assms(1,3) by (intro add64_id) simp_all
      have lt: "cur + ?g < 2 ^ 64" unfolding p64 using gle assms(2) True by linarith
      have "add64 cur ?g = cur + ?g - 2 ^ 64" using big lt by (rule add64_wrap)
      then show ?thesis unfolding a0 using lt by simp
    next
      case False
      have lt: "cur + n < 2 ^ 64" unfolding p64 using assms(2,4) by linarith
      have w: "add64 cur n = cur + n - 2 ^ 64" using False lt by (intro add64_wrap) simp_all
      have neg: "cur + n - 2 ^ 64 < 0" using lt by simp
      have "max n (min (cur + n - 2 ^ 64) (2 ^ 30)) = n"
        using neg assms(3) by (simp add: min_def max_def)
      then show ?thesis unfolding w using w neg by simp
    qed
  }
qed

text \<open>
  What \<^verbatim>\<open>Grow\<close> computes once both guards have passed and the capacity does not
  suffice, without the wrap-around.
\<close>

lemma Grow_grows:
  assumes init: "buf b \<noteq> []" and o0: "0 \<le> offset b" and oc: "offset b \<le> curSz b"
    and c63: "curSz b < 2 ^ 63"
    and guard: "n \<le> sub64 (maxSz b) (offset b)" and more: "curSz b - offset b \<le> n"
  shows "Grow b n =
    (let c = curSz b + max n (min (curSz b + n) (2 ^ 30))
     in case bufType b of
          UseCalloc \<Rightarrow>
            if 2 ^ 63 \<le> c \<or> int (length (buf b)) < offset b then Inl Panic
            else Inr (b\<lparr>curSz := c,
                   buf := take (nat (offset b)) (buf b) @ replicate (nat (c - offset b)) 0\<rparr>)
        | UseMmap \<Rightarrow>
            if 2 ^ 63 \<le> c then Inl Fatal
            else Inr (b\<lparr>curSz := c, buf := truncated (buf b) c, fd := Some c\<rparr>)
        | UseInvalid \<Rightarrow>
            Inr (b\<lparr>curSz := add64 (curSz b) (max n (min (add64 (curSz b) n) (2 ^ 30)))\<rparr>))"
proof -
  have n0: "0 \<le> n" using oc more by linarith
  have n1: "n < 2 ^ 63" using guard sub64_less [of "maxSz b" "offset b"] by linarith
  have cur0: "0 \<le> curSz b" using o0 oc by linarith
  have s: "sub64 (curSz b) (offset b) = curSz b - offset b"
    using o0 oc c63 by (intro sub64_id) simp_all
  define a where "a = add64 (curSz b) (max n (min (add64 (curSz b) n) (2 ^ 30)))"
  define c where "c = curSz b + max n (min (curSz b + n) (2 ^ 30))"
  have gb: "\<And>x. (if n > (if x > 2 ^ 30 then 2 ^ 30 else x) then n
               else (if x > 2 ^ 30 then 2 ^ 30 else x)) = max n (min x (2 ^ 30))"
    by (simp add: min_def max_def)
  have head0: "Grow b n =
      (let growBy0 = add64 (curSz b) n;
           growBy1 = (if growBy0 > 2 ^ 30 then 2 ^ 30 else growBy0);
           growBy = (if n > growBy1 then n else growBy1);
           b1 = b\<lparr>curSz := add64 (curSz b) growBy\<rparr>
       in case bufType b1 of
            UseCalloc \<Rightarrow>
              (case Calloc (curSz b1) of
                 Inl e \<Rightarrow> Inl e
               | Inr newBuf \<Rightarrow>
                   (case slice_expr (buf b1) 0 (offset b1) of
                      Inl e \<Rightarrow> Inl e
                    | Inr old \<Rightarrow>
                        (case copy_to newBuf 0 (int (length newBuf)) old of
                           Inl e \<Rightarrow> Inl e
                         | Inr (filled, k) \<Rightarrow> Inr (b1\<lparr>buf := filled\<rparr>))))
          | UseMmap \<Rightarrow>
              (case Truncate (curSz b1) of
                 Inl e \<Rightarrow> Inl Fatal
               | Inr flen \<Rightarrow> Inr (b1\<lparr>buf := truncated (buf b1) flen, fd := Some flen\<rparr>))
          | UseInvalid \<Rightarrow> Inr b1)"
    using init guard more by (simp add: Grow_def s)
  have head: "Grow b n =
      (case bufType b of
            UseCalloc \<Rightarrow>
              (case Calloc a of
                 Inl e \<Rightarrow> Inl e
               | Inr newBuf \<Rightarrow>
                   (case slice_expr (buf b) 0 (offset b) of
                      Inl e \<Rightarrow> Inl e
                    | Inr old \<Rightarrow>
                        (case copy_to newBuf 0 (int (length newBuf)) old of
                           Inl e \<Rightarrow> Inl e
                         | Inr (filled, k) \<Rightarrow> Inr (b\<lparr>curSz := a, buf := filled\<rparr>))))
          | UseMmap \<Rightarrow>
              (case Truncate a of
                 Inl e \<Rightarrow> Inl Fatal
               | Inr flen \<Rightarrow> Inr (b\<lparr>curSz := a, buf := truncated (buf b) flen, fd := Some flen\<rparr>))
          | UseInvalid \<Rightarrow> Inr (b\<lparr>curSz := a\<rparr>))"
    unfolding head0 Let_def gb a_def
    by (simp cong: sum.case_cong BufferType.case_cong)
  note G = grown_capacity [OF cur0 c63 n0 n1, folded a_def c_def]
  have cn: "curSz b + n \<le> c" unfolding c_def by simp
  have res: "Grow b n =
    (case bufType b of
          UseCalloc \<Rightarrow>
            if 2 ^ 63 \<le> c \<or> int (length (buf b)) < offset b then Inl Panic
            else Inr (b\<lparr>curSz := c,
                   buf := take (nat (offset b)) (buf b) @ replicate (nat (c - offset b)) 0\<rparr>)
        | UseMmap \<Rightarrow>
            if 2 ^ 63 \<le> c then Inl Fatal
            else Inr (b\<lparr>curSz := c, buf := truncated (buf b) c, fd := Some c\<rparr>)
        | UseInvalid \<Rightarrow> Inr (b\<lparr>curSz := a\<rparr>))"
  proof (cases "c < 2 ^ 63")
    case False
    then have "a < 0" using G(2) by simp
    then show ?thesis
      unfolding head using False
      by (cases "bufType b") (simp_all add: Calloc_def Truncate_def)
  next
    case True
    then have ac: "a = c" using G(1) by simp
    have c0: "0 \<le> c" "offset b \<le> c" using cn cur0 n0 oc by linarith+
    show ?thesis
    proof (cases "bufType b")
      case UseCalloc
      show ?thesis
      proof (cases "int (length (buf b)) < offset b")
        case l: True
        then have "slice_expr (buf b) 0 (offset b) = Inl Panic"
          by (simp add: slice_expr_def)
        then show ?thesis
          unfolding head using UseCalloc l True c0
          by (simp add: Calloc_def ac)
      next
        case l: False
        have sl: "slice_expr (buf b) 0 (offset b) = Inr (take (nat (offset b)) (buf b))"
          using o0 l by (simp add: slice_expr_def)
        have lt: "length (take (nat (offset b)) (buf b)) = nat (offset b)"
          using l by simp
        note cp = copy_to_fresh [OF o0 c0(2) lt]
        show ?thesis
          unfolding head using UseCalloc l True c0
          by (simp add: Calloc_def ac sl cp)
      qed
    next
      case UseMmap
      then show ?thesis
        unfolding head using True c0
        by (simp add: Truncate_def ac)
    next
      case UseInvalid
      then show ?thesis
        unfolding head by simp
    qed
  qed
  show ?thesis
    unfolding Let_def res c_def a_def ..
qed

section \<open>The invariant along a run\<close>

lemma sound_iff: "sound b = (sized b \<and> offset b \<le> maxSz b \<and> maxSz b < 2 ^ 63)"
  by (auto simp: sound_def valid_def sized_def split: BufferType.splits)

lemma sound_valid: "sound b \<Longrightarrow> valid b"
  by (simp add: sound_def)

lemma sized_ranges:
  assumes "sized b"
  shows "1 \<le> offset b" and "offset b \<le> curSz b" and "curSz b < 2 ^ 63"
    and "offset b \<le> int (length (buf b))" and "buf b \<noteq> []" and "bufType b \<noteq> UseInvalid"
    and "bufType b = UseCalloc \<Longrightarrow> int (length (buf b)) = curSz b"
    and "bufType b = UseMmap \<Longrightarrow> int (length (buf b)) = maxSz b"
    and "bufType b = UseMmap \<Longrightarrow> offset b \<le> maxSz b"
    and "bufType b = UseMmap \<Longrightarrow> maxSz b < 2 ^ 63"
proof -
  show r: "1 \<le> offset b" "offset b \<le> curSz b" "curSz b < 2 ^ 63"
    using assms by (simp_all add: sized_def)
  show l: "offset b \<le> int (length (buf b))"
    using assms by (auto simp: sized_def split: BufferType.splits)
  show "buf b \<noteq> []" using l r(1) by auto
  show "bufType b \<noteq> UseInvalid" using assms by (auto simp: sized_def)
  show "bufType b = UseCalloc \<Longrightarrow> int (length (buf b)) = curSz b"
    and "bufType b = UseMmap \<Longrightarrow> int (length (buf b)) = maxSz b"
    and "bufType b = UseMmap \<Longrightarrow> offset b \<le> maxSz b"
    and "bufType b = UseMmap \<Longrightarrow> maxSz b < 2 ^ 63"
    using assms by (simp_all add: sized_def)
qed

lemma Grow_sized:
  assumes s: "sized b" and g: "Grow b n = Inr b'"
  shows "sized b'" and "offset b' = offset b" and "maxSz b' = maxSz b"
    and "bufType b' = bufType b"
    and "take (nat (offset b)) (buf b') = take (nat (offset b)) (buf b)"
    and "offset b + n \<le> int (length (buf b'))" and "offset b + n \<le> curSz b'"
    and "curSz b \<le> curSz b'"
    and "offset b \<le> maxSz b \<Longrightarrow> maxSz b < 2 ^ 63 \<Longrightarrow> offset b + n \<le> maxSz b"
    and "sound b \<Longrightarrow> sound b'"
proof -
  note R = sized_ranges [OF s]
  have o0: "0 \<le> offset b" using R(1) by simp
  have sc: "sub64 (curSz b) (offset b) = curSz b - offset b"
    using R by (intro sub64_id) simp_all
  from g R(5) have guard: "n \<le> sub64 (maxSz b) (offset b)"
    by (auto simp: Grow_def split: if_splits)
  have sm: "offset b \<le> maxSz b \<Longrightarrow> maxSz b < 2 ^ 63 \<Longrightarrow>
      sub64 (maxSz b) (offset b) = maxSz b - offset b"
    using R(1) by (intro sub64_id) simp_all
  have mm: "bufType b = UseMmap \<Longrightarrow> offset b + n \<le> maxSz b"
    using sm R(9,10) guard by simp
  have all: "sized b' \<and> offset b' = offset b \<and> maxSz b' = maxSz b \<and> bufType b' = bufType b
      \<and> take (nat (offset b)) (buf b') = take (nat (offset b)) (buf b)
      \<and> offset b + n \<le> int (length (buf b')) \<and> offset b + n \<le> curSz b'
      \<and> curSz b \<le> curSz b'"
  proof (cases "n < curSz b - offset b")
    case True
    then have "b' = b" using g R(5) guard by (simp add: Grow_def sc)
    then show ?thesis using s R True mm
      by (cases "bufType b") auto
  next
    case False
    then have more: "curSz b - offset b \<le> n" by simp
    define c where "c = curSz b + max n (min (curSz b + n) (2 ^ 30))"
    have n0: "0 \<le> n" using R more by linarith
    have cn: "curSz b + n \<le> c" unfolding c_def by simp
    have oc: "offset b \<le> c" "0 \<le> c" "curSz b \<le> c" using cn n0 R by linarith+
    note G = Grow_grows [OF R(5) o0 R(2,3) guard more, unfolded Let_def, folded c_def]
    show ?thesis
    proof (cases "bufType b")
      case UseCalloc
      from g G UseCalloc have c63: "c < 2 ^ 63" by (auto split: if_splits)
      from g G c63 UseCalloc R(4)
      have b': "b' = b\<lparr>curSz := c,
          buf := take (nat (offset b)) (buf b) @ replicate (nat (c - offset b)) 0\<rparr>"
        by simp
      have lt: "length (take (nat (offset b)) (buf b)) = nat (offset b)"
        using R(4) by simp
      have bb: "buf b' = take (nat (offset b)) (buf b) @ replicate (nat (c - offset b)) 0"
        by (simp add: b')
      have len: "int (length (buf b')) = c"
        unfolding bb length_append lt length_replicate using oc R(1) by simp
      have tk: "take (nat (offset b)) (buf b') = take (nat (offset b)) (buf b)"
        unfolding bb using lt by simp
      have f: "offset b' = offset b" "maxSz b' = maxSz b" "bufType b' = bufType b" "curSz b' = c"
        by (simp_all add: b')
      have "sized b'" using R(1) oc c63 len UseCalloc by (simp add: sized_def f)
      then show ?thesis using f tk len cn oc R(1,2) by simp
    next
      case UseMmap
      from g G UseMmap have c63: "c < 2 ^ 63" by (auto split: if_splits)
      from g G c63 UseMmap
      have b': "b' = b\<lparr>curSz := c, buf := truncated (buf b) c, fd := Some c\<rparr>" by simp
      have f: "offset b' = offset b" "maxSz b' = maxSz b" "bufType b' = bufType b" "curSz b' = c"
        "length (buf b') = length (buf b)"
        by (simp_all add: b')
      have tk: "take (nat (offset b)) (buf b') = take (nat (offset b)) (buf b)"
        using oc by (simp add: b' take_truncated)
      have "sized b'" using R(1) R(8-10) [OF UseMmap] oc c63 UseMmap by (simp add: sized_def f)
      then show ?thesis using f tk cn oc R(1,2) R(8) [OF UseMmap] mm [OF UseMmap] by simp
    next
      case UseInvalid
      then show ?thesis using R(6) by simp
    qed
  qed
  show "sized b'" "offset b' = offset b" "maxSz b' = maxSz b" "bufType b' = bufType b"
    "take (nat (offset b)) (buf b') = take (nat (offset b)) (buf b)"
    "offset b + n \<le> int (length (buf b'))" "offset b + n \<le> curSz b'" "curSz b \<le> curSz b'"
    using all by blast+
  show "offset b \<le> maxSz b \<Longrightarrow> maxSz b < 2 ^ 63 \<Longrightarrow> offset b + n \<le> maxSz b"
    using sm guard by simp
  show "sound b \<Longrightarrow> sound b'" using all by (simp add: sound_iff)
qed

lemma Allocate_sized:
  assumes "sized b" and "Allocate b n = Inr (b', lo, hi)"
  shows "sized b'" and "offset b' = offset b + n" and "0 \<le> n" and "lo = offset b"
    and "hi = offset b + n" and "maxSz b' = maxSz b" and "bufType b' = bufType b"
    and "take (nat (offset b)) (buf b') = take (nat (offset b)) (buf b)"
    and "hi \<le> int (length (buf b'))" and "sound b \<Longrightarrow> sound b'"
proof -
  from assms(2) obtain b1 where g: "Grow b n = Inr b1"
    and r: "slice_expr (buf b1) (offset b1) (offset b1 + n)
          = Inr (take (nat n) (drop (nat (offset b1)) (buf b1)))
        \<and> b' = b1\<lparr>offset := offset b1 + n\<rparr> \<and> lo = offset b1 \<and> hi = offset b1 + n"
    by (auto simp: Allocate_def Let_def slice_expr_def split: sum.splits if_splits)
  note G = Grow_sized [OF assms(1) g]
  note R = sized_ranges [OF G(1)]
  from r have n0: "0 \<le> n" by (auto simp: slice_expr_def split: if_splits)
  have f: "offset b' = offset b + n" "maxSz b' = maxSz b" "bufType b' = bufType b"
    "curSz b' = curSz b1" "buf b' = buf b1"
    using G r by simp_all
  show "0 \<le> n" by (rule n0)
  show sz: "sized b'"
  proof (cases "bufType b1")
    case UseCalloc
    then show ?thesis using G R n0 by (simp add: sized_def f)
  next
    case UseMmap
    then show ?thesis using G R n0 by (simp add: sized_def f)
  next
    case UseInvalid
    then show ?thesis using R(6) by simp
  qed
  show "offset b' = offset b + n" using G r by simp
  show "lo = offset b" using G r by simp
  show "hi = offset b + n" using G r by simp
  show "maxSz b' = maxSz b" using G r by simp
  show "bufType b' = bufType b" using G r by simp
  show "take (nat (offset b)) (buf b') = take (nat (offset b)) (buf b)" using G r by simp
  show "hi \<le> int (length (buf b'))" using G r by simp
  show "sound b \<Longrightarrow> sound b'" using sz G(9) f by (simp add: sound_iff)
qed

lemma sized_buf_update:
  "sized b \<Longrightarrow> length bs = length (buf b) \<Longrightarrow> sized (b\<lparr>buf := bs\<rparr>)"
  by (auto simp: sized_def split: BufferType.splits)

lemma sound_buf_update:
  "sound b \<Longrightarrow> length bs = length (buf b) \<Longrightarrow> sound (b\<lparr>buf := bs\<rparr>)"
  by (simp add: sound_iff sized_buf_update)

lemma copy_to_fits:
  assumes "copy_to bs lo hi src = Inr (bs', k)" and "int (length src) \<le> hi - lo"
  shows "bs' = take (nat lo) bs @ src @ drop (nat lo + length src) bs" and "k = int (length src)"
    and "0 \<le> lo" and "lo + int (length src) \<le> int (length bs)"
proof -
  from assms(1) have rng: "0 \<le> lo" "lo \<le> hi" "hi \<le> int (length bs)"
    by (auto simp: copy_to_def split: if_splits)
  with assms(2) have m: "min (nat (hi - lo)) (length src) = length src"
    by linarith
  from assms(1) rng show "bs' = take (nat lo) bs @ src @ drop (nat lo + length src) bs"
    and "k = int (length src)"
    by (simp_all add: copy_to_def Let_def m)
  show "0 \<le> lo" by (rule rng)
  show "lo + int (length src) \<le> int (length bs)" using rng assms(2) by linarith
qed

lemma take_copy_to:
  assumes "copy_to bs lo hi src = Inr (bs', k)" and "int (length src) \<le> hi - lo"
  shows "take (nat (lo + int (length src))) bs' = take (nat lo) bs @ src"
proof -
  note C = copy_to_fits [OF assms]
  have l: "nat lo \<le> length bs" using C by linarith
  have "nat (lo + int (length src)) = length (take (nat lo) bs @ src)"
    using C l by (simp add: nat_add_distrib)
  then show ?thesis
    unfolding C(1) by (metis append.assoc append_eq_conv_conj)
qed

lemma length_PutUint32 [simp]: "length (PutUint32 w) = 4"
  by (simp add: PutUint32_def)

lemma writeLen_sized:
  assumes "sized b" and "writeLen b sz = Inr b'"
  shows "sized b'" and "offset b' = offset b + 4" and "maxSz b' = maxSz b"
    and "bufType b' = bufType b"
    and "take (nat (offset b')) (buf b') = take (nat (offset b)) (buf b) @ PutUint32 (word_of_int sz)"
    and "sound b \<Longrightarrow> sound b'"
proof -
  from assms(2) obtain b1 lo hi bs k where a: "Allocate b 4 = Inr (b1, lo, hi)"
    and c: "copy_to (buf b1) lo hi (PutUint32 (word_of_int sz)) = Inr (bs, k)"
    and b': "b' = b1\<lparr>buf := bs\<rparr>"
    by (auto simp: writeLen_def split: sum.splits)
  note A = Allocate_sized [OF assms(1) a]
  have fit: "int (length (PutUint32 (word_of_int sz :: 32 word))) \<le> hi - lo"
    using A by simp
  note C = copy_to_fits [OF c fit]
  have len: "length bs = length (buf b1)" using c by (rule length_copy_to)
  show "sized b'" using A(1) len b' by (simp add: sized_buf_update)
  show "offset b' = offset b + 4" using A b' by simp
  show "maxSz b' = maxSz b" using A b' by simp
  show "bufType b' = bufType b" using A b' by simp
  have "take (nat (offset b + 4)) bs
      = take (nat (offset b)) (buf b1) @ PutUint32 (word_of_int sz)"
    using take_copy_to [OF c fit] A by simp
  then show "take (nat (offset b')) (buf b') = take (nat (offset b)) (buf b) @ PutUint32 (word_of_int sz)"
    using A b' by simp
  show "sound b \<Longrightarrow> sound b'" using A(10) len b' by (simp add: sound_buf_update)
qed

lemma SliceAllocate_sized:
  assumes "sized b" and "SliceAllocate b sz = Inr (b', lo, hi)"
  shows "sized b'" and "offset b' = offset b + 4 + sz" and "0 \<le> sz" and "maxSz b' = maxSz b"
    and "bufType b' = bufType b" and "lo = offset b + 4" and "hi = offset b + 4 + sz"
    and "hi \<le> int (length (buf b'))"
    and "take (nat (offset b + 4)) (buf b') = take (nat (offset b)) (buf b) @ PutUint32 (word_of_int sz)"
    and "sound b \<Longrightarrow> sound b'"
proof -
  from assms(2) obtain b1 b2 where g: "Grow b (4 + sz) = Inr b1"
    and w: "writeLen b1 sz = Inr b2" and a: "Allocate b2 sz = Inr (b', lo, hi)"
    by (auto simp: SliceAllocate_def split: sum.splits)
  note G = Grow_sized [OF assms(1) g]
  note W = writeLen_sized [OF G(1) w]
  note A = Allocate_sized [OF W(1) a]
  show "sized b'" by (rule A(1))
  show "offset b' = offset b + 4 + sz" using G W A by simp
  show "0 \<le> sz" by (rule A(3))
  show "maxSz b' = maxSz b" using G W A by simp
  show "bufType b' = bufType b" using G W A by simp
  show "lo = offset b + 4" using G W A by simp
  show "hi = offset b + 4 + sz" using G W A by simp
  show "hi \<le> int (length (buf b'))" by (rule A(9))
  show "take (nat (offset b + 4)) (buf b') = take (nat (offset b)) (buf b) @ PutUint32 (word_of_int sz)"
    using G W A by simp
  show "sound b \<Longrightarrow> sound b'" using G(10) W(6) A(10) by simp
qed

lemma Write_sized:
  assumes "sized b" and "Write b p = Inr (b', k)"
  shows "sized b'" and "offset b' = offset b + int (length p)" and "k = int (length p)"
    and "maxSz b' = maxSz b" and "bufType b' = bufType b"
    and "take (nat (offset b')) (buf b') = take (nat (offset b)) (buf b) @ p"
    and "sound b \<Longrightarrow> sound b'"
proof -
  from assms(2) obtain b1 bs where g: "Grow b (int (length p)) = Inr b1"
    and c: "copy_to (buf b1) (offset b1) (int (length (buf b1))) p = Inr (bs, k)"
    and b': "b' = b1\<lparr>buf := bs, offset := offset b1 + k\<rparr>"
    by (auto simp: Write_def split: sum.splits)
  note G = Grow_sized [OF assms(1) g]
  note R = sized_ranges [OF G(1)]
  have fit: "int (length p) \<le> int (length (buf b1)) - offset b1" using G by simp
  note C = copy_to_fits [OF c fit]
  have len: "length bs = length (buf b1)" using c by (rule length_copy_to)
  have f: "offset b' = offset b + int (length p)" "maxSz b' = maxSz b" "bufType b' = bufType b"
    "curSz b' = curSz b1" "length (buf b') = length (buf b1)"
    using G C(2) b' len by simp_all
  show "k = int (length p)" by (rule C(2))
  show "offset b' = offset b + int (length p)" by (rule f)
  show "maxSz b' = maxSz b" by (rule f)
  show "bufType b' = bufType b" by (rule f)
  show sz: "sized b'"
  proof (cases "bufType b1")
    case UseCalloc
    then show ?thesis using G R by (simp add: sized_def f)
  next
    case UseMmap
    then show ?thesis using G R by (simp add: sized_def f)
  next
    case UseInvalid
    then show ?thesis using R(6) by simp
  qed
  have "take (nat (offset b + int (length p))) bs = take (nat (offset b)) (buf b1) @ p"
    using take_copy_to [OF c fit] G by simp
  then show "take (nat (offset b')) (buf b') = take (nat (offset b)) (buf b) @ p"
    using G C b' by simp
  show "sound b \<Longrightarrow> sound b'" using sz G(9) f by (simp add: sound_iff)
qed

lemma AllocateOffset_sized:
  assumes "sized b" and "AllocateOffset b n = Inr (b', off)" and "0 \<le> n"
  shows "sized b'" and "offset b' = offset b + n" and "off = offset b"
    and "sound b \<Longrightarrow> sound b'"
proof -
  from assms(2) obtain b1 where g: "Grow b n = Inr b1"
    by (cases "Grow b n") (simp_all add: AllocateOffset_def)
  with assms(2) have b': "b' = b1\<lparr>offset := offset b1 + n\<rparr>" and off: "off = offset b1"
    by (auto simp: AllocateOffset_def Let_def)
  note G = Grow_sized [OF assms(1) g]
  note R = sized_ranges [OF G(1)]
  have f: "offset b' = offset b + n" "maxSz b' = maxSz b" "bufType b' = bufType b"
    "curSz b' = curSz b1" "buf b' = buf b1"
    using G b' by simp_all
  show sz: "sized b'"
  proof (cases "bufType b1")
    case UseCalloc
    then show ?thesis using G R assms(3) by (simp add: sized_def f)
  next
    case UseMmap
    then show ?thesis using G R assms(3) by (simp add: sized_def f)
  next
    case UseInvalid
    then show ?thesis using R(6) by simp
  qed
  show "offset b' = offset b + n" by (rule f)
  show "off = offset b" using G off by simp
  show "sound b \<Longrightarrow> sound b'" using sz G(9) f by (simp add: sound_iff)
qed

lemma SliceAllocateOffset_sized:
  assumes "sized b" and "SliceAllocateOffset b sz = Inr (b', sp, off)"
  shows "sized b'" and "offset b' = offset b + 4 + sz" and "0 \<le> sz" and "off = offset b"
    and "sound b \<Longrightarrow> sound b'"
proof -
  from assms(2) obtain lo hi where s: "SliceAllocate b sz = Inr (b', lo, hi)"
    and off: "off = offset b' - sz - 4"
    by (auto simp: SliceAllocateOffset_def SliceAllocate_def split: sum.splits)
  note S = SliceAllocate_sized [OF assms(1) s]
  show "sized b'" by (rule S(1))
  show "offset b' = offset b + 4 + sz" by (rule S(2))
  show "0 \<le> sz" by (rule S(3))
  show "off = offset b" using S(2) off by simp
  show "sound b \<Longrightarrow> sound b'" by (rule S(10))
qed

lemma WriteAt_sound:
  assumes "sound b" and "WriteAt b p off = Inr (b', k, e) \<or> WriteSliceAt b p off = Inr (b', k, e)"
  shows "sound b'" and "offset b' = offset b"
  using assms
  by (auto simp: WriteAt_def WriteSliceAt_def sound_buf_update length_copy_to
      split: sum.splits if_splits)

lemma Reset_sound: "sound b \<Longrightarrow> sound (Reset b)"
  by (auto simp: sound_def valid_def Reset_def split: BufferType.splits)

lemma step_sound:
  assumes "sound b" and "step b x = Inr b'" and "\<forall>n. x = Op_AllocateOffset n \<longrightarrow> 0 \<le> n"
  shows "sound b'" and "x \<noteq> Op_Reset \<Longrightarrow> offset b \<le> offset b'"
proof -
  have s: "sized b" using assms(1) by (simp add: sound_iff)
  have "sound b' \<and> (x \<noteq> Op_Reset \<longrightarrow> offset b \<le> offset b')"
  proof (cases x)
    case (Op_Grow n)
    then show ?thesis using assms Grow_sized [OF s, of n b'] by simp
  next
    case (Op_Allocate n)
    then obtain lo hi where "Allocate b n = Inr (b', lo, hi)"
      using assms(2) by (cases "Allocate b n") auto
    from Allocate_sized [OF s this] assms(1) show ?thesis by simp
  next
    case (Op_AllocateOffset n)
    then obtain off where "AllocateOffset b n = Inr (b', off)"
      using assms(2) by (cases "AllocateOffset b n") auto
    from AllocateOffset_sized [OF s this] assms(1,3) Op_AllocateOffset
    show ?thesis by simp
  next
    case (Op_Write p)
    then obtain k where "Write b p = Inr (b', k)"
      using assms(2) by (cases "Write b p") auto
    from Write_sized [OF s this] assms(1) show ?thesis by simp
  next
    case (Op_SliceAllocate n)
    then obtain lo hi where "SliceAllocate b n = Inr (b', lo, hi)"
      using assms(2) by (cases "SliceAllocate b n") auto
    from SliceAllocate_sized [OF s this] assms(1) show ?thesis by simp
  next
    case (Op_SliceAllocateOffset n)
    then obtain sp off where "SliceAllocateOffset b n = Inr (b', sp, off)"
      using assms(2) by (cases "SliceAllocateOffset b n") auto
    from SliceAllocateOffset_sized [OF s this] assms(1) show ?thesis by simp
  next
    case (Op_WriteAt p off)
    then obtain k e where "WriteAt b p off = Inr (b', k, e)"
      using assms(2) by (cases "WriteAt b p off") auto
    with WriteAt_sound [OF assms(1), of p off b' k e] show ?thesis by simp
  next
    case (Op_WriteSliceAt p off)
    then obtain k e where "WriteSliceAt b p off = Inr (b', k, e)"
      using assms(2) by (cases "WriteSliceAt b p off") auto
    with WriteAt_sound [OF assms(1), of p off b' k e] show ?thesis by simp
  next
    case Op_Reset
    then show ?thesis using assms Reset_sound [of b] by auto
  qed
  then show "sound b'" and "x \<noteq> Op_Reset \<Longrightarrow> offset b \<le> offset b'" by simp_all
qed

lemma run_sound:
  "sound b \<Longrightarrow> run b xs = Inr b' \<Longrightarrow> \<forall>n. Op_AllocateOffset n \<in> set xs \<longrightarrow> 0 \<le> n \<Longrightarrow> sound b'"
proof (induction xs arbitrary: b)
  case Nil
  then show ?case by simp
next
  case (Cons x xs)
  from Cons.prems(2) obtain b1 where s: "step b x = Inr b1" and r: "run b1 xs = Inr b'"
    by (auto split: sum.splits)
  have "sound b1" using step_sound(1) [OF Cons.prems(1) s] Cons.prems(3) by simp
  then show ?case using Cons.IH [OF _ r] Cons.prems(3) by simp
qed

text \<open>
  Every state that a run of operations reaches from a constructed buffer with a positive
  maximum is valid.
\<close>

lemma run_valid:
  "sound b \<Longrightarrow> run b xs = Inr b' \<Longrightarrow> \<forall>n. Op_AllocateOffset n \<in> set xs \<longrightarrow> 0 \<le> n \<Longrightarrow> valid b'"
  using run_sound [of b xs b'] by (simp add: sound_def)

lemma sint64_range: "- (2 ^ 63) \<le> sint (x :: 64 word)" "sint (x :: 64 word) < 2 ^ 63"
  using sint_ge [of x] sint_lt [of x] by simp_all

lemma sint64_eq_0: "(sint (x :: 64 word) = 0) = (x = 0)"
  by (rule signed_eq_0_iff)


lemma NewBufferWith_shape:
  assumes "NewBufferWith sz mx t = Inr (Inr b0)"
  shows "offset b0 = 1" and "buf b0 \<noteq> []" and "sized b0"
    and "mx = 0 \<or> 1 \<le> sint mx \<Longrightarrow> sound b0"
proof -
  define s where "s = (if sz = 0 then smallBufferSize else sint sz)"
  define m where "m = (if mx = 0 then MaxInt32 else sint mx)"
  have s0: "s \<noteq> 0" "s < 2 ^ 63"
    using sint64_range [of sz] by (simp_all add: s_def smallBufferSize_def sint64_eq_0)
  have m63: "m < 2 ^ 63"
    using sint64_range [of mx] by (simp add: m_def MaxInt32_def)
  have m1: "mx = 0 \<or> 1 \<le> sint mx \<Longrightarrow> 1 \<le> m"
    by (auto simp: m_def MaxInt32_def)
  from assms have c: "(t = UseCalloc \<and> 0 < s
        \<and> b0 = \<lparr>buf = (replicate (nat s) 0)[0 := 0], offset = 1, curSz = s, maxSz = m, fd = None,
               bufType = UseCalloc\<rparr>)
      \<or> (t = UseMmap \<and> 0 \<le> s \<and> 0 < m
        \<and> b0 = \<lparr>buf = (replicate (nat m) 0)[0 := 0], offset = 1, curSz = s, maxSz = m, fd = Some s,
               bufType = UseMmap\<rparr>)"
    unfolding NewBufferWith_def Let_def s_def [symmetric] m_def [symmetric]
    by (auto simp: fresh_def Calloc_def Mmap_def Truncate_def
        split: BufferType.splits sum.splits if_splits)
  show "offset b0 = 1" using c by auto
  show "buf b0 \<noteq> []" using c by auto
  show sz: "sized b0" using c s0 m63 by (auto simp: sized_def)
  show "mx = 0 \<or> 1 \<le> sint mx \<Longrightarrow> sound b0"
    using sz m1 m63 c by (auto simp: sound_iff)
qed

lemma NewBufferWith_valid:
  assumes "NewBufferWith sz mx t = Inr (Inr b0)" and "mx = 0 \<or> 1 \<le> sint mx"
  shows "valid b0"
  using NewBufferWith_shape(4) [OF assms] by (rule sound_valid)

lemma replicate_zero_update: "(replicate n (0::byte))[0 := 0] = replicate n 0"
  by (auto simp: list_eq_iff_nth_eq nth_list_update)

lemma NewBufferWith_UseCalloc:
  assumes "sz \<noteq> 0" and "mx \<noteq> 0" and "0 < sint sz"
  shows "NewBufferWith sz mx UseCalloc =
    Inr (Inr \<lparr>buf = replicate (nat (sint sz)) 0, offset = 1, curSz = sint sz, maxSz = sint mx,
              fd = None, bufType = UseCalloc\<rparr>)"
  using assms by (simp add: NewBufferWith_def Let_def fresh_def Calloc_def replicate_zero_update)

lemma NewBufferWith_UseMmap:
  assumes "sz \<noteq> 0" and "mx \<noteq> 0" and "0 \<le> sint sz" and "0 < sint mx"
  shows "NewBufferWith sz mx UseMmap =
    Inr (Inr \<lparr>buf = replicate (nat (sint mx)) 0, offset = 1, curSz = sint sz, maxSz = sint mx,
              fd = Some (sint sz), bufType = UseMmap\<rparr>)"
  using assms
  by (simp add: NewBufferWith_def Let_def fresh_def Mmap_def Truncate_def replicate_zero_update)

section \<open>Accessors, growth and random access\<close>

text \<open>
  Claim C6. \<^verbatim>\<open>Slice\<close> at an offset that is not below the write cursor returns the nil
  payload and the next offset 0, whatever the region holds: it reads no byte of it.
\<close>

theorem Slice_past_cursor:
  assumes "offset b \<le> off"
  shows "Slice b off = Inr ([], 0) \<and> (\<forall>bs. Slice (b\<lparr>buf := bs\<rparr>) off = Inr ([], 0))"
  using assms by (simp add: Slice_def)

theorem Slice_past_cursor_witness:
  "offset \<lparr>buf = [0, 0, 0, 0, 1, 7], offset = 6, curSz = 6, maxSz = 10, fd = None, bufType = UseCalloc\<rparr> \<le> 6
   \<and> Slice \<lparr>buf = [0, 0, 0, 0, 1, 7], offset = 6, curSz = 6, maxSz = 10, fd = None, bufType = UseCalloc\<rparr> 6
       = Inr ([], 0)"
  using Slice_past_cursor
    [of "\<lparr>buf = [0, 0, 0, 0, 1, 7], offset = 6, curSz = 6, maxSz = 10, fd = None, bufType = UseCalloc\<rparr>" 6]
  by simp



text \<open>
  Claim C4, amended. The differences that \<^verbatim>\<open>Grow\<close> tests are 64-bit differences. On an
  initialized buffer \<^verbatim>\<open>Grow(n)\<close> panics whenever \<open>maxSz - offset < n\<close>. When that guard
  passes and \<open>curSz - offset\<close> exceeds \<open>n\<close> it returns the buffer as it was, region and
  file included; in a state with \<open>0 \<le> offset \<le> curSz \<le> maxSz\<close> both differences are
  the exact ones and the guard passes whenever the capacity suffices. With the cursor
  inside the region and within the capacity, and the capacity after the growth,
  \<open>curSz + max n (min (curSz + n) 2^30)\<close>, below \<open>2^63\<close>, \<^verbatim>\<open>Grow(n)\<close> fails exactly when
  the guard on the maximum does.
\<close>

theorem Grow_panics_or_noop:
  assumes "buf b \<noteq> []"
  shows "(sub64 (maxSz b) (offset b) < n \<longrightarrow> Grow b n = Inl Panic)
    \<and> (n \<le> sub64 (maxSz b) (offset b) \<and> n < sub64 (curSz b) (offset b) \<longrightarrow> Grow b n = Inr b)
    \<and> (0 \<le> offset b \<and> offset b \<le> curSz b \<and> curSz b \<le> maxSz b \<and> maxSz b < 2 ^ 63 \<longrightarrow>
          sub64 (maxSz b) (offset b) = maxSz b - offset b
          \<and> sub64 (curSz b) (offset b) = curSz b - offset b
          \<and> (n < curSz b - offset b \<longrightarrow> Grow b n = Inr b))
    \<and> (0 \<le> offset b \<and> offset b \<le> int (length (buf b)) \<and> offset b \<le> curSz b
          \<and> curSz b < 2 ^ 63 \<and> curSz b + max n (min (curSz b + n) (2 ^ 30)) < 2 ^ 63 \<longrightarrow>
          (\<exists>e. Grow b n = Inl e) = (sub64 (maxSz b) (offset b) < n))"
proof (intro conjI impI)
  show g: "Grow b n = Inl Panic" if "sub64 (maxSz b) (offset b) < n"
    using that assms by (simp add: Grow_def)
  show noop: "Grow b n = Inr b"
    if "n \<le> sub64 (maxSz b) (offset b) \<and> n < sub64 (curSz b) (offset b)"
    using that assms by (simp add: Grow_def)
  {
    assume inv: "0 \<le> offset b \<and> offset b \<le> curSz b \<and> curSz b \<le> maxSz b \<and> maxSz b < 2 ^ 63"
    show m: "sub64 (maxSz b) (offset b) = maxSz b - offset b"
      using inv by (intro sub64_id) simp_all
    show c: "sub64 (curSz b) (offset b) = curSz b - offset b"
      using inv by (intro sub64_id) simp_all
    show "Grow b n = Inr b" if "n < curSz b - offset b"
      using that inv assms by (simp add: Grow_def m c)
  }
  {
    assume st: "0 \<le> offset b \<and> offset b \<le> int (length (buf b)) \<and> offset b \<le> curSz b
          \<and> curSz b < 2 ^ 63 \<and> curSz b + max n (min (curSz b + n) (2 ^ 30)) < 2 ^ 63"
    show "(\<exists>e. Grow b n = Inl e) = (sub64 (maxSz b) (offset b) < n)"
    proof (cases "sub64 (maxSz b) (offset b) < n")
      case True
      then show ?thesis using assms by (simp add: Grow_def)
    next
      case False
      then have guard: "n \<le> sub64 (maxSz b) (offset b)" by simp
      have o: "0 \<le> offset b" "offset b \<le> curSz b" "curSz b < 2 ^ 63"
        "\<not> int (length (buf b)) < offset b"
        "\<not> 2 ^ 63 \<le> curSz b + max n (min (curSz b + n) (2 ^ 30))"
        using st by simp_all
      have c: "sub64 (curSz b) (offset b) = curSz b - offset b"
        using o by (intro sub64_id) simp_all
      have "\<exists>b'. Grow b n = Inr b'"
      proof (cases "n < curSz b - offset b")
        case True
        then show ?thesis using guard assms by (simp add: Grow_def c)
      next
        case more: False
        then have "curSz b - offset b \<le> n" by simp
        note G = Grow_grows [OF assms o(1-3) guard this, unfolded Let_def]
        show ?thesis
          unfolding G using o(4,5) by (cases "bufType b") simp_all
      qed
      then show ?thesis using False by auto
    qed
  }
qed

theorem Grow_panics_or_noop_witness:
  "Grow \<lparr>buf = [0, 9, 8, 0, 0], offset = 3, curSz = 5, maxSz = 10, fd = None, bufType = UseCalloc\<rparr> 8
     = Inl Panic
   \<and> Grow \<lparr>buf = [0, 9, 8, 0, 0], offset = 3, curSz = 5, maxSz = 10, fd = None, bufType = UseCalloc\<rparr> 1
     = Inr \<lparr>buf = [0, 9, 8, 0, 0], offset = 3, curSz = 5, maxSz = 10, fd = None, bufType = UseCalloc\<rparr>
   \<and> Grow \<lparr>buf = [0, 9, 8, 0, 0], offset = 3, curSz = 5, maxSz = 10, fd = None, bufType = UseCalloc\<rparr> 3
     \<noteq> Inl Panic"
proof -
  let ?b = "\<lparr>buf = [0, 9, 8, 0, 0], offset = 3, curSz = 5, maxSz = 10, fd = None, bufType = UseCalloc\<rparr>"
  have d: "sub64 10 3 = 7" "sub64 5 3 = 2"
    by (simp_all add: sub64_id)
  have ne: "buf ?b \<noteq> []" by simp
  note T = Grow_panics_or_noop [OF ne]
  have p: "Grow ?b 8 = Inl Panic"
    using T [of 8, THEN conjunct1] by (simp add: d)
  have r: "Grow ?b 1 = Inr ?b"
    using T [of 1, THEN conjunct2, THEN conjunct2, THEN conjunct1] by simp
  have "(\<exists>e. Grow ?b 3 = Inl e) = (sub64 (maxSz ?b) (offset ?b) < 3)"
    using T [of 3, THEN conjunct2, THEN conjunct2, THEN conjunct2] by simp
  then have g: "Grow ?b 3 \<noteq> Inl Panic"
    by (simp add: d)
  show ?thesis by (intro conjI p r g)
qed

text \<open>
  The claim as it stands fails where the sum for the new capacity leaves the 64-bit
  range: on the buffer of \<^verbatim>\<open>NewBuffer(64)\<close>, whose maximum is \<open>2^63 - 1\<close>, the request
  \<open>2^63 - 2\<close> passes the guard on the maximum, the capacity \<open>64 + (2^63 - 2)\<close> wraps to a
  negative value, and the allocation panics.
\<close>

lemma sint_MaxInt64: "sint (word_of_int MaxInt64 :: 64 word) = 9223372036854775807"
  by (simp add: MaxInt64_def signed_of_int signed_take_bit_int_eq_self)

lemma NewBuffer_64:
  "NewBuffer 64 =
     Inr \<lparr>buf = replicate 64 0, offset = 1, curSz = 64, maxSz = 9223372036854775807, fd = None,
          bufType = UseCalloc\<rparr>"
proof -
  have "word_of_int MaxInt64 \<noteq> (0 :: 64 word)"
    using sint_MaxInt64 by auto
  then show ?thesis
    using NewBufferWith_UseCalloc [of 64 "word_of_int MaxInt64"]
    by (simp add: NewBuffer_def sint_MaxInt64)
qed

theorem Grow_overflow_counterexample:
  "NewBuffer 64 =
     Inr \<lparr>buf = replicate 64 0, offset = 1, curSz = 64, maxSz = 9223372036854775807, fd = None,
          bufType = UseCalloc\<rparr>
   \<and> \<not> maxSz \<lparr>buf = replicate 64 0, offset = 1, curSz = 64, maxSz = 9223372036854775807, fd = None,
          bufType = UseCalloc\<rparr>
       - offset \<lparr>buf = replicate 64 0, offset = 1, curSz = 64, maxSz = 9223372036854775807, fd = None,
          bufType = UseCalloc\<rparr> < 9223372036854775806
   \<and> Grow \<lparr>buf = replicate 64 0, offset = 1, curSz = 64, maxSz = 9223372036854775807, fd = None,
          bufType = UseCalloc\<rparr> 9223372036854775806
     = Inl Panic"
proof -
  let ?b = "\<lparr>buf = replicate 64 0, offset = 1, curSz = 64, maxSz = 9223372036854775807, fd = None,
          bufType = UseCalloc\<rparr>"
  have d: "sub64 9223372036854775807 1 = 9223372036854775806"
    by (simp add: sub64_id)
  have "Grow ?b 9223372036854775806 = Inl Panic"
    using Grow_grows [of ?b 9223372036854775806] by (simp add: d)
  then show ?thesis by (simp add: NewBuffer_64)
qed

text \<open>
  Claim C3. The comment of \<^verbatim>\<open>NewBufferWith\<close> has the total size of the buffer not
  exceed the maximum. \<^verbatim>\<open>Grow\<close> tests the cursor against the maximum and adds to the
  capacity without looking at it: from size 64 and maximum 100, \<^verbatim>\<open>Grow(64)\<close> returns
  with capacity 192.
\<close>

theorem capacity_exceeds_maximum:
  "NewBufferWith 64 100 UseCalloc =
     Inr (Inr \<lparr>buf = replicate 64 0, offset = 1, curSz = 64, maxSz = 100, fd = None, bufType = UseCalloc\<rparr>)
   \<and> run \<lparr>buf = replicate 64 0, offset = 1, curSz = 64, maxSz = 100, fd = None, bufType = UseCalloc\<rparr>
         [Op_Grow 64] =
     Inr \<lparr>buf = replicate 192 0, offset = 1, curSz = 192, maxSz = 100, fd = None, bufType = UseCalloc\<rparr>
   \<and> maxSz \<lparr>buf = replicate 192 0, offset = 1, curSz = 192, maxSz = 100, fd = None, bufType = UseCalloc\<rparr>
       < curSz \<lparr>buf = replicate 192 0, offset = 1, curSz = 192, maxSz = 100, fd = None, bufType = UseCalloc\<rparr>"
proof -
  let ?b = "\<lparr>buf = replicate 64 0, offset = 1, curSz = 64, maxSz = 100, fd = None, bufType = UseCalloc\<rparr>"
  have new: "NewBufferWith 64 100 UseCalloc = Inr (Inr ?b)"
    using NewBufferWith_UseCalloc [of 64 100] by simp
  have d: "sub64 100 1 = 99"
    by (simp add: sub64_id)
  have z: "(0::byte) # replicate 191 0 = replicate 192 0"
    by (auto simp: list_eq_iff_nth_eq nth_append nth_Cons')
  have "Grow ?b 64 =
      Inr \<lparr>buf = replicate 192 0, offset = 1, curSz = 192, maxSz = 100, fd = None, bufType = UseCalloc\<rparr>"
    using Grow_grows [of ?b 64] by (simp add: d z)
  then show ?thesis by (simp add: new)
qed

text \<open>
  Claim C5. \<^verbatim>\<open>NewMmapFile\<close> keeps a file longer than the given size as it is, so as
  not to lose what it holds, and sets the cursor to the length of the file; the capacity
  is the given size. \<^verbatim>\<open>Grow\<close> then truncates the file to the new capacity, which is
  below the cursor: of a file of 500 bytes opened with size 64, \<^verbatim>\<open>Grow(10)\<close> keeps
  the first 138, and byte 200 of the region, below the cursor, is no longer the one
  written.
\<close>

theorem Grow_truncates_written:
  "NewMmapFile 64 1000 0 (replicate 500 7) =
     Inr (Inr \<lparr>buf = replicate 500 7 @ replicate 500 0, offset = 500, curSz = 64, maxSz = 1000,
               fd = Some 500, bufType = UseMmap\<rparr>)
   \<and> Grow \<lparr>buf = replicate 500 7 @ replicate 500 0, offset = 500, curSz = 64, maxSz = 1000,
            fd = Some 500, bufType = UseMmap\<rparr> 10 =
     Inr \<lparr>buf = replicate 138 7 @ replicate 862 0, offset = 500, curSz = 138, maxSz = 1000,
          fd = Some 138, bufType = UseMmap\<rparr>
   \<and> (replicate 500 7 @ replicate 500 (0::byte)) ! 200 = 7
   \<and> (replicate 138 7 @ replicate 862 (0::byte)) ! 200 = 0"
proof -
  let ?b = "\<lparr>buf = replicate 500 7 @ replicate 500 0, offset = 500, curSz = 64, maxSz = 1000,
            fd = Some 500, bufType = UseMmap\<rparr>"
  have new: "NewMmapFile 64 1000 0 (replicate 500 7) = Inr (Inr ?b)"
    by (simp add: NewMmapFile_def Let_def Truncate_def Mmap_def)
  have tr: "truncated (replicate 500 7 @ replicate 500 0) 138 = replicate 138 7 @ replicate 862 0"
    by (simp add: truncated_def)
  have grow: "Grow ?b 10 =
     Inr \<lparr>buf = replicate 138 7 @ replicate 862 0, offset = 500, curSz = 138, maxSz = 1000,
          fd = Some 138, bufType = UseMmap\<rparr>"
    by (simp add: Grow_def Let_def sub64_id add64_id Truncate_def tr)
  have n1: "(replicate 500 7 @ replicate 500 (0::byte)) ! 200 = 7"
    by (simp add: nth_append)
  have n2: "(replicate 138 7 @ replicate 862 (0::byte)) ! 200 = 0"
    by (simp add: nth_append)
  show ?thesis by (intro conjI new grow n1 n2)
qed

text \<open>
  Claim C7, amended. \<^verbatim>\<open>WriteAt\<close>, \<^verbatim>\<open>WriteSliceAt\<close> and \<^verbatim>\<open>ReadAt\<close> return the
  out-of-bounds error exactly when the end of the span, as the 64-bit sum gives it,
  exceeds the length of the region \<^verbatim>\<open>len(b.buf)\<close>. Whatever they return, only the bytes
  of the region can differ afterwards: no field changes and the region keeps its length;
  with the error the buffer is the one before the call and the value returned is empty.
  In a valid state the length of the region is the capacity for an off-heap buffer and
  the maximum for a mapped one.
\<close>

theorem random_access_bounds:
  "(WriteAt b p off = Inr (b, 0, Some OutOfBounds))
     = (add64 off (int (length p)) > int (length (buf b)))
   \<and> (WriteSliceAt b p off = Inr (b, 0, Some OutOfBounds))
     = (add64 (add64 off 4) (int (length p)) > int (length (buf b)))
   \<and> (ReadAt b n off = Inr (b, [], Some OutOfBounds)) = (add64 off n > int (length (buf b)))
   \<and> (\<forall>b' k e. WriteAt b p off = Inr (b', k, e) \<or> WriteSliceAt b p off = Inr (b', k, e) \<longrightarrow>
        length (buf b') = length (buf b) \<and> offset b' = offset b \<and> curSz b' = curSz b
        \<and> maxSz b' = maxSz b \<and> fd b' = fd b \<and> bufType b' = bufType b
        \<and> (e \<noteq> None \<longrightarrow> e = Some OutOfBounds \<and> b' = b \<and> k = 0))
   \<and> (\<forall>b' r e. ReadAt b n off = Inr (b', r, e) \<longrightarrow>
        b' = b \<and> (e \<noteq> None \<longrightarrow> e = Some OutOfBounds \<and> r = []))
   \<and> (valid b \<longrightarrow> int (length (buf b)) = (if bufType b = UseCalloc then curSz b else maxSz b))"
  by (auto simp: WriteAt_def WriteSliceAt_def ReadAt_def length_copy_to valid_def
      split: sum.splits if_splits BufferType.splits)

theorem random_access_bounds_witness:
  "WriteAt \<lparr>buf = [0, 9, 8, 0, 0], offset = 3, curSz = 5, maxSz = 10, fd = None, bufType = UseCalloc\<rparr> [7, 7] 4
     = Inr (\<lparr>buf = [0, 9, 8, 0, 0], offset = 3, curSz = 5, maxSz = 10, fd = None, bufType = UseCalloc\<rparr>,
            0, Some OutOfBounds)
   \<and> WriteAt \<lparr>buf = [0, 9, 8, 0, 0], offset = 3, curSz = 5, maxSz = 10, fd = None, bufType = UseCalloc\<rparr> [7, 7] 3
     = Inr (\<lparr>buf = [0, 9, 8, 7, 7], offset = 3, curSz = 5, maxSz = 10, fd = None, bufType = UseCalloc\<rparr>,
            2, None)
   \<and> length [0, 9, 8, 7, 7 :: byte] = length [0, 9, 8, 0, 0 :: byte]"
proof -
  have sums: "add64 4 2 = 6" "add64 3 2 = 5"
    by (simp_all add: add64_id)
  have wr: "WriteAt \<lparr>buf = [0, 9, 8, 0, 0], offset = 3, curSz = 5, maxSz = 10, fd = None, bufType = UseCalloc\<rparr> [7, 7] 3
     = Inr (\<lparr>buf = [0, 9, 8, 7, 7], offset = 3, curSz = 5, maxSz = 10, fd = None, bufType = UseCalloc\<rparr>,
            2, None)"
    by (simp add: WriteAt_def sums copy_to_def eval_nat_numeral)
  note err =
    random_access_bounds
      [of "\<lparr>buf = [0, 9, 8, 0, 0], offset = 3, curSz = 5, maxSz = 10, fd = None, bufType = UseCalloc\<rparr>"
        "[7, 7]" 4 0, THEN conjunct1]
  note frame =
    random_access_bounds
      [of "\<lparr>buf = [0, 9, 8, 0, 0], offset = 3, curSz = 5, maxSz = 10, fd = None, bufType = UseCalloc\<rparr>"
        "[7, 7]" 3 0, THEN conjunct2, THEN conjunct2, THEN conjunct2, THEN conjunct1,
        THEN spec, THEN spec, THEN spec,
        of "\<lparr>buf = [0, 9, 8, 7, 7], offset = 3, curSz = 5, maxSz = 10, fd = None, bufType = UseCalloc\<rparr>"
          2 None]
  have "length (buf \<lparr>buf = [0, 9, 8, 7, 7], offset = 3, curSz = 5, maxSz = 10, fd = None,
          bufType = UseCalloc\<rparr>)
        = length (buf \<lparr>buf = [0, 9, 8, 0, 0], offset = 3, curSz = 5, maxSz = 10, fd = None,
          bufType = UseCalloc\<rparr>)"
    using frame wr by blast
  then show ?thesis
    using err by (simp add: sums wr)
qed

text \<open>
  The claim as it stands fails for a mapped buffer, whose region has the maximum length
  from the start: with capacity 8 and maximum 32, a write of one byte at offset 16 ends
  beyond the capacity and returns no error.
\<close>

theorem random_access_counterexample:
  "NewBufferWith 8 32 UseMmap =
     Inr (Inr \<lparr>buf = replicate 32 0, offset = 1, curSz = 8, maxSz = 32, fd = Some 8, bufType = UseMmap\<rparr>)
   \<and> curSz \<lparr>buf = replicate 32 0, offset = 1, curSz = 8, maxSz = 32, fd = Some 8, bufType = UseMmap\<rparr>
       < 16 + int (length [1 :: byte])
   \<and> WriteAt \<lparr>buf = replicate 32 0, offset = 1, curSz = 8, maxSz = 32, fd = Some 8, bufType = UseMmap\<rparr> [1] 16
     = Inr (\<lparr>buf = replicate 16 0 @ [1] @ replicate 15 0, offset = 1, curSz = 8, maxSz = 32, fd = Some 8,
              bufType = UseMmap\<rparr>, 1, None)"
proof -
  let ?b = "\<lparr>buf = replicate 32 0, offset = 1, curSz = 8, maxSz = 32, fd = Some 8, bufType = UseMmap\<rparr>"
  have new: "NewBufferWith 8 32 UseMmap = Inr (Inr ?b)"
    using NewBufferWith_UseMmap [of 8 32] by simp
  have wr: "WriteAt ?b [1] 16
     = Inr (\<lparr>buf = replicate 16 0 @ [1] @ replicate 15 0, offset = 1, curSz = 8, maxSz = 32, fd = Some 8,
              bufType = UseMmap\<rparr>, 1, None)"
    by (simp add: WriteAt_def add64_id copy_to_def)
  show ?thesis by (simp add: new wr)
qed

section \<open>Records written and read back\<close>

declare walk.simps [simp del]

lemma Uint32_PutUint32 [simp]: "Uint32 (PutUint32 w @ rest) = Inr w"
  unfolding PutUint32_def
  apply simp
  apply (rule bit_word_eqI)
  apply (auto simp: bit_simps)
  subgoal for n by (cases "n < 24") (simp_all add: not_less)
  done


lemma length_record_bytes [simp]: "length (record_bytes p) = 4 + length p"
  by (simp add: record_bytes_def)

lemma uint_length32:
  "length p < 2 ^ 32 \<Longrightarrow> uint (word_of_int (int (length p)) :: 32 word) = int (length p)"
  by (simp add: uint_nat unat_of_nat)

lemma Slice_at_record:
  assumes b: "buf b = pre @ record_bytes p @ post" and off: "int (length pre) = off"
    and small: "length p < 2 ^ 32" and lt: "off < offset b"
  shows "Slice b off
    = Inr (p, if off + 4 + int (length p) \<ge> offset b then 0 else off + 4 + int (length p))"
proof -
  have n: "nat off = length pre" using off by simp
  have s1: "slice_expr (buf b) off (int (length (buf b))) = Inr (record_bytes p @ post)"
    using off by (simp add: slice_expr_def b n)
  have s2: "slice_expr (buf b) (off + 4) (off + 4 + int (length p)) = Inr p"
  proof -
    have "nat (off + 4) = length (pre @ PutUint32 (word_of_int (int (length p))))"
      using off by simp
    then have "drop (nat (off + 4)) (buf b) = p @ post"
      unfolding b record_bytes_def by (metis append.assoc append_eq_conv_conj)
    then show ?thesis using off by (simp add: slice_expr_def b)
  qed
  show ?thesis
    using lt uint_length32 [OF small]
    by (simp add: Slice_def s1 record_bytes_def s2 Let_def)
qed

lemma walk_layout:
  assumes "buf b = pre @ concat (map record_bytes ps) @ post" and "int (length pre) = off"
    and "0 < off" and "e = off + int (length (concat (map record_bytes ps)))"
    and "e \<le> offset b" and "\<forall>p\<in>set ps. length p < 2 ^ 32"
  shows "walk b off e = Inr (layout off (if e \<ge> offset b then 0 else e) ps)"
  using assms
proof (induction ps arbitrary: pre off)
  case Nil
  then show ?case by (simp add: walk.simps)
next
  case (Cons p ps)
  let ?n = "off + 4 + int (length p)"
  have lt: "off < e" using Cons.prems(4) by simp
  have ltb: "off < offset b" using lt Cons.prems(5) by simp
  have b1: "buf b = pre @ record_bytes p @ (concat (map record_bytes ps) @ post)"
    using Cons.prems(1) by simp
  have small: "length p < 2 ^ 32" using Cons.prems(6) by simp
  note S = Slice_at_record [OF b1 Cons.prems(2) small ltb]
  show ?case
  proof (cases ps)
    case Nil
    then have e: "e = ?n" using Cons.prems(4) by simp
    have w0: "walk b 0 ?n = Inr []" "walk b ?n ?n = Inr []"
      by (simp_all add: walk.simps)
    show ?thesis
      using lt Cons.prems(3) Nil e
      by (subst walk.simps) (simp add: S w0)
  next
    case (Cons q qs)
    have b2: "buf b = (pre @ record_bytes p) @ concat (map record_bytes ps) @ post"
      using b1 by simp
    have l2: "int (length (pre @ record_bytes p)) = ?n" using Cons.prems(2) by simp
    have e2: "e = ?n + int (length (concat (map record_bytes ps)))"
      using Cons.prems(4) by simp
    have pos: "0 < ?n" using Cons.prems(3) by simp
    have IH: "walk b ?n e = Inr (layout ?n (if e \<ge> offset b then 0 else e) ps)"
      using Cons.IH [OF b2 l2 pos e2 Cons.prems(5)] Cons.prems(6) by simp
    have "?n < e" using e2 Cons by simp
    then have nb: "\<not> offset b \<le> ?n" using Cons.prems(5) by simp
    show ?thesis
      using lt Cons.prems(3) Cons nb
      by (subst walk.simps) (simp add: S IH)
  qed
qed


lemma writeRecord_sized:
  assumes "sized b" and "writeRecord b p = Inr b'"
  shows "sized b'" and "offset b' = offset b + 4 + int (length p)"
    and "take (nat (offset b')) (buf b') = take (nat (offset b)) (buf b) @ record_bytes p"
proof -
  from assms(2) obtain b1 lo hi bs k where s: "SliceAllocate b (int (length p)) = Inr (b1, lo, hi)"
    and c: "copy_to (buf b1) lo hi p = Inr (bs, k)" and b': "b' = b1\<lparr>buf := bs\<rparr>"
    by (auto simp: writeRecord_def split: sum.splits)
  note S = SliceAllocate_sized [OF assms(1) s]
  have fit: "int (length p) \<le> hi - lo" using S by simp
  have len: "length bs = length (buf b1)" using c by (rule length_copy_to)
  show "sized b'" using S(1) len b' by (simp add: sized_buf_update)
  show "offset b' = offset b + 4 + int (length p)" using S b' by simp
  have "take (nat (lo + int (length p))) bs = take (nat lo) (buf b1) @ p"
    using c fit by (rule take_copy_to)
  then show "take (nat (offset b')) (buf b') = take (nat (offset b)) (buf b) @ record_bytes p"
    using S b' by (simp add: record_bytes_def)
qed

lemma writeRecords_sized:
  assumes "sized b" and "writeRecords b ps = Inr b'"
  shows "sized b' \<and> offset b' = offset b + int (length (concat (map record_bytes ps)))
    \<and> take (nat (offset b')) (buf b') = take (nat (offset b)) (buf b) @ concat (map record_bytes ps)"
  using assms
proof (induction ps arbitrary: b)
  case Nil
  then show ?case by simp
next
  case (Cons p ps)
  from Cons.prems(2) obtain b1 where w: "writeRecord b p = Inr b1"
    and r: "writeRecords b1 ps = Inr b'"
    by (auto split: sum.splits)
  note W = writeRecord_sized [OF Cons.prems(1) w]
  note IH = Cons.IH [OF W(1) r]
  have "take (nat (offset b')) (buf b')
      = take (nat (offset b1)) (buf b1) @ concat (map record_bytes ps)"
    using IH by blast
  then have "take (nat (offset b')) (buf b')
      = take (nat (offset b)) (buf b) @ concat (map record_bytes (p # ps))"
    by (simp add: W(3))
  moreover have "offset b' = offset b + int (length (concat (map record_bytes (p # ps))))"
    using IH W(2) by simp
  ultimately show ?case using IH by blast
qed

lemma map_payload_layout: "map (fst \<circ> snd) (layout off lst ps) = ps"
  by (induction off lst ps rule: layout.induct) simp_all

lemma length_layout: "length (layout off lst ps) = length ps"
  by (induction off lst ps rule: layout.induct) simp_all

lemma next_layout:
  "0 < off \<Longrightarrow> i < length ps \<Longrightarrow>
     (snd (snd (layout off 0 ps ! i)) = 0) = (Suc i = length ps)"
proof (induction off "0 :: int" ps arbitrary: i rule: layout.induct)
  case (1 off)
  then show ?case by simp
next
  case (2 off p)
  then show ?case by simp
next
  case (3 off p q ps)
  show ?case
  proof (cases i)
    case 0
    then show ?thesis using "3.prems" by simp
  next
    case (Suc j)
    then show ?thesis using "3.hyps" [of j] "3.prems" by simp
  qed
qed

text \<open>
  Claim C2, amended. On a buffer that \<^verbatim>\<open>NewBufferWith\<close> returns, after any sequence of
  records written with \<^verbatim>\<open>SliceAllocate\<close> and filled, each payload shorter than \<open>2^32\<close>
  bytes, the walk from offset 1 finds exactly the payloads written, in the order written
  and byte for byte, and the next offset that \<^verbatim>\<open>Slice\<close> returns is 0 for the last record
  and for no other.
\<close>

theorem records_round_trip:
  assumes "NewBufferWith sz mx t = Inr (Inr b0)" and "writeRecords b0 ps = Inr b"
    and "\<forall>p\<in>set ps. length p < 2 ^ 32"
  shows "\<exists>rs. walk b 1 (offset b) = Inr rs \<and> map (fst \<circ> snd) rs = ps
    \<and> (\<forall>i<length rs. (snd (snd (rs ! i)) = 0) = (Suc i = length rs))"
proof -
  note N = NewBufferWith_shape [OF assms(1)]
  note W = writeRecords_sized [OF N(3) assms(2)]
  let ?chain = "concat (map record_bytes ps)"
  have "sized b" using W by blast
  then have len: "offset b \<le> int (length (buf b))" by (rule sized_ranges)
  have "take (nat (offset b)) (buf b) = take (nat (offset b0)) (buf b0) @ ?chain"
    using W by blast
  then have "take (nat (offset b)) (buf b) = take 1 (buf b0) @ ?chain"
    by (simp add: N(1))
  then have b: "buf b = take 1 (buf b0) @ ?chain @ drop (nat (offset b)) (buf b)"
    by (metis append.assoc append_take_drop_id)
  have l: "int (length (take 1 (buf b0))) = 1" using N(2) by (cases "buf b0") simp_all
  have e: "offset b = 1 + int (length ?chain)" using W N(1) by simp
  have "walk b 1 (offset b) = Inr (layout 1 (if offset b \<ge> offset b then 0 else offset b) ps)"
    using walk_layout [OF b l _ e _ assms(3)] by simp
  then have "walk b 1 (offset b) = Inr (layout 1 0 ps)" by simp
  then show ?thesis
    by (simp add: map_payload_layout length_layout next_layout)
qed

theorem records_round_trip_witness:
  "NewBufferWith 16 64 UseCalloc
     = Inr (Inr \<lparr>buf = [0, 0, 0, 0, 0, 0, 0, 0, 0, 0, 0, 0, 0, 0, 0, 0], offset = 1, curSz = 16, maxSz = 64, fd = None, bufType = UseCalloc\<rparr>)
   \<and> writeRecords \<lparr>buf = [0, 0, 0, 0, 0, 0, 0, 0, 0, 0, 0, 0, 0, 0, 0, 0], offset = 1, curSz = 16, maxSz = 64, fd = None, bufType = UseCalloc\<rparr>
         [[1, 2], [3]]
     = Inr \<lparr>buf = [0, 0, 0, 0, 2, 1, 2, 0, 0, 0, 1, 3, 0, 0, 0, 0], offset = 12, curSz = 16, maxSz = 64,
            fd = None, bufType = UseCalloc\<rparr>
   \<and> walk \<lparr>buf = [0, 0, 0, 0, 2, 1, 2, 0, 0, 0, 1, 3, 0, 0, 0, 0], offset = 12, curSz = 16, maxSz = 64,
            fd = None, bufType = UseCalloc\<rparr> 1 12
     = Inr [(1, [1, 2], 7), (7, [3], 0)]
   \<and> (\<exists>rs. walk \<lparr>buf = [0, 0, 0, 0, 2, 1, 2, 0, 0, 0, 1, 3, 0, 0, 0, 0], offset = 12, curSz = 16,
                maxSz = 64, fd = None, bufType = UseCalloc\<rparr> 1 12 = Inr rs
          \<and> map (fst \<circ> snd) rs = [[1, 2], [3]])"
proof -
  have zeros: "replicate 16 (0::byte) = [0, 0, 0, 0, 0, 0, 0, 0, 0, 0, 0, 0, 0, 0, 0, 0]"
    by (simp add: eval_nat_numeral)
  have new: "NewBufferWith 16 64 UseCalloc
     = Inr (Inr \<lparr>buf = [0, 0, 0, 0, 0, 0, 0, 0, 0, 0, 0, 0, 0, 0, 0, 0], offset = 1, curSz = 16, maxSz = 64, fd = None, bufType = UseCalloc\<rparr>)"
    using NewBufferWith_UseCalloc [of 16 64] by (simp add: zeros)
  have wr: "writeRecords \<lparr>buf = [0, 0, 0, 0, 0, 0, 0, 0, 0, 0, 0, 0, 0, 0, 0, 0], offset = 1, curSz = 16, maxSz = 64, fd = None, bufType = UseCalloc\<rparr>
         [[1, 2], [3]]
     = Inr \<lparr>buf = [0, 0, 0, 0, 2, 1, 2, 0, 0, 0, 1, 3, 0, 0, 0, 0], offset = 12, curSz = 16, maxSz = 64,
            fd = None, bufType = UseCalloc\<rparr>"
    by (simp add: writeRecord_def SliceAllocate_def writeLen_def Allocate_def Grow_def Let_def
        sub64_id slice_expr_def copy_to_def PutUint32_def)
  have wk: "walk \<lparr>buf = [0, 0, 0, 0, 2, 1, 2, 0, 0, 0, 1, 3, 0, 0, 0, 0], offset = 12, curSz = 16, maxSz = 64,
            fd = None, bufType = UseCalloc\<rparr> 1 12
     = Inr [(1, [1, 2], 7), (7, [3], 0)]"
    by (simp add: walk.simps Slice_def slice_expr_def Let_def)
  have "\<forall>p\<in>set [[1, 2], [3 :: byte]]. length p < 2 ^ 32" by simp
  from records_round_trip [OF new wr this]
  have ex: "\<exists>rs. walk \<lparr>buf = [0, 0, 0, 0, 2, 1, 2, 0, 0, 0, 1, 3, 0, 0, 0, 0], offset = 12, curSz = 16,
                maxSz = 64, fd = None, bufType = UseCalloc\<rparr> 1 12 = Inr rs
          \<and> map (fst \<circ> snd) rs = [[1, 2], [3]]"
    by auto
  show ?thesis by (intro conjI new wr wk ex)
qed

text \<open>
  The claim as it stands fails on a payload of \<open>2^32\<close> bytes: \<^verbatim>\<open>writeLen\<close> stores the
  length as a \<^verbatim>\<open>uint32\<close>, here 0, so the first \<^verbatim>\<open>Slice\<close> of the walk returns the empty
  payload and offset 5 as the next record.
\<close>

lemma grow_for_large_record:
  "Grow \<lparr>buf = replicate 64 0, offset = 1, curSz = 64, maxSz = 8589934592, fd = None,
          bufType = UseCalloc\<rparr> 4294967300
   = Inr \<lparr>buf = replicate 4294967364 0, offset = 1, curSz = 4294967364, maxSz = 8589934592, fd = None,
          bufType = UseCalloc\<rparr>"
proof -
  have d: "sub64 8589934592 1 = 8589934591"
    by (simp add: sub64_id)
  have z: "(0::byte) # replicate 4294967363 0 = replicate 4294967364 0"
    by (auto simp: list_eq_iff_nth_eq nth_Cons')
  show ?thesis
    using Grow_grows [of "\<lparr>buf = replicate 64 0, offset = 1, curSz = 64, maxSz = 8589934592,
      fd = None, bufType = UseCalloc\<rparr>" 4294967300]
    by (simp add: d z)
qed

lemma writeLen_for_large_record:
  "writeLen \<lparr>buf = replicate 4294967364 0, offset = 1, curSz = 4294967364, maxSz = 8589934592,
          fd = None, bufType = UseCalloc\<rparr> 4294967296
   = Inr \<lparr>buf = replicate 4294967364 0, offset = 5, curSz = 4294967364, maxSz = 8589934592, fd = None,
          bufType = UseCalloc\<rparr>"
  apply (simp add: writeLen_def Allocate_def Grow_def Let_def sub64_id slice_expr_def copy_to_def
      PutUint32_def)
  apply (auto simp: list_eq_iff_nth_eq nth_list_update nth_Cons' nth_append)
  done

lemma Allocate_for_large_record:
  "Allocate \<lparr>buf = replicate 4294967364 0, offset = 5, curSz = 4294967364, maxSz = 8589934592,
          fd = None, bufType = UseCalloc\<rparr> 4294967296
   = Inr (\<lparr>buf = replicate 4294967364 0, offset = 4294967301, curSz = 4294967364,
            maxSz = 8589934592, fd = None, bufType = UseCalloc\<rparr>, 5, 4294967301)"
  by (simp add: Allocate_def Grow_def Let_def sub64_id slice_expr_def)

lemma fill_large_record:
  "copy_to (replicate 4294967364 0) 5 4294967301 (replicate 4294967296 1)
   = Inr ([0, 0, 0, 0, 0] @ replicate 4294967296 1 @ replicate 63 0, 4294967296)"
proof -
  have c: "(0::int) \<le> 5 \<and> (5::int) \<le> 4294967301
      \<and> 4294967301 \<le> int (length (replicate 4294967364 (0::byte)))"
    by simp
  have t5: "replicate 5 (0::byte) = [0, 0, 0, 0, 0]"
    by (simp add: eval_nat_numeral)
  have t1: "take (nat 5) (replicate 4294967364 (0::byte)) = [0, 0, 0, 0, 0]"
    by (simp add: t5)
  have t2: "min (nat (4294967301 - 5)) (length (replicate 4294967296 (1::byte))) = 4294967296"
    by simp
  have t3: "drop (nat 5 + 4294967296) (replicate 4294967364 (0::byte)) = replicate 63 0"
    by simp
  have t4: "take 4294967296 (replicate 4294967296 (1::byte)) = replicate 4294967296 1"
    by simp
  show ?thesis
    unfolding copy_to_def Let_def if_P [OF c] t2
    by (simp only: t1 t3 t4 of_nat_numeral)
qed

theorem records_round_trip_counterexample:
  "NewBufferWith 64 8589934592 UseCalloc
     = Inr (Inr \<lparr>buf = replicate 64 0, offset = 1, curSz = 64, maxSz = 8589934592, fd = None,
                 bufType = UseCalloc\<rparr>)
   \<and> writeRecords \<lparr>buf = replicate 64 0, offset = 1, curSz = 64, maxSz = 8589934592, fd = None,
          bufType = UseCalloc\<rparr> [replicate 4294967296 1]
     = Inr \<lparr>buf = [0, 0, 0, 0, 0] @ replicate 4294967296 1 @ replicate 63 0, offset = 4294967301,
            curSz = 4294967364, maxSz = 8589934592, fd = None, bufType = UseCalloc\<rparr>
   \<and> Slice \<lparr>buf = [0, 0, 0, 0, 0] @ replicate 4294967296 1 @ replicate 63 0, offset = 4294967301,
            curSz = 4294967364, maxSz = 8589934592, fd = None, bufType = UseCalloc\<rparr> 1
     = Inr ([], 5)"
proof -
  let ?buf = "[0, 0, 0, 0, 0] @ replicate 4294967296 (1::byte) @ replicate 63 0"
  have new: "NewBufferWith 64 8589934592 UseCalloc
     = Inr (Inr \<lparr>buf = replicate 64 0, offset = 1, curSz = 64, maxSz = 8589934592, fd = None,
                 bufType = UseCalloc\<rparr>)"
    using NewBufferWith_UseCalloc [of 64 8589934592] by simp
  have wr: "writeRecords \<lparr>buf = replicate 64 0, offset = 1, curSz = 64, maxSz = 8589934592, fd = None,
          bufType = UseCalloc\<rparr> [replicate 4294967296 1]
     = Inr \<lparr>buf = ?buf, offset = 4294967301,
            curSz = 4294967364, maxSz = 8589934592, fd = None, bufType = UseCalloc\<rparr>"
    by (simp add: writeRecord_def SliceAllocate_def grow_for_large_record writeLen_for_large_record
        Allocate_for_large_record fill_large_record del: append.simps)
  have s1: "slice_expr ?buf 1 4294967364
      = Inr ([0, 0, 0, 0] @ replicate 4294967296 1 @ replicate 63 0)"
    by (simp add: slice_expr_def)
  have u: "Uint32 ([0, 0, 0, 0] @ replicate 4294967296 1 @ replicate 63 0) = Inr 0"
    by simp
  have s2: "slice_expr ?buf 5 5 = Inr []"
    by (simp add: slice_expr_def)
  have sl: "Slice \<lparr>buf = ?buf, offset = 4294967301,
            curSz = 4294967364, maxSz = 8589934592, fd = None, bufType = UseCalloc\<rparr> 1
     = Inr ([], 5)"
    by (simp add: Slice_def s1 u s2 del: append.simps)
  show ?thesis by (intro conjI new wr sl)
qed

section \<open>The guards of the sorter\<close>

text \<open>
  Claim C8, amended. \<^verbatim>\<open>SortSliceBetween\<close> first returns when \<open>start \<ge> end\<close>, leaving the
  buffer as it is, and only then panics on \<open>start = 0\<close>: with \<open>start = 0\<close> it panics
  for every positive \<open>end\<close>.
\<close>

theorem SortSliceBetween_guards:
  "(e \<le> start \<longrightarrow> SortSliceBetween srt b start e lessf = Inr b)
   \<and> (0 < e \<longrightarrow> SortSliceBetween srt b 0 e lessf = Inl Panic)"
  by (simp add: SortSliceBetween_def)

theorem SortSliceBetween_guards_witness:
  "SortSliceBetween insertion_sort
       \<lparr>buf = [0, 0, 0, 0, 1, 7], offset = 6, curSz = 6, maxSz = 10, fd = None, bufType = UseCalloc\<rparr>
       6 1 bytes_less
     = Inr \<lparr>buf = [0, 0, 0, 0, 1, 7], offset = 6, curSz = 6, maxSz = 10, fd = None, bufType = UseCalloc\<rparr>
   \<and> SortSliceBetween insertion_sort
       \<lparr>buf = [0, 0, 0, 0, 1, 7], offset = 6, curSz = 6, maxSz = 10, fd = None, bufType = UseCalloc\<rparr>
       0 6 bytes_less
     = Inl Panic"
  using SortSliceBetween_guards
    [of 1 6 insertion_sort
      "\<lparr>buf = [0, 0, 0, 0, 1, 7], offset = 6, curSz = 6, maxSz = 10, fd = None, bufType = UseCalloc\<rparr>"
      bytes_less]
    SortSliceBetween_guards
    [of 6 0 insertion_sort
      "\<lparr>buf = [0, 0, 0, 0, 1, 7], offset = 6, curSz = 6, maxSz = 10, fd = None, bufType = UseCalloc\<rparr>"
      bytes_less]
  by simp

text \<open>
  The claim as it stands fails at \<open>end = 0\<close>: \<^verbatim>\<open>SortSliceBetween(0, 0, less)\<close> returns at
  the first test and does not panic.
\<close>

theorem SortSliceBetween_guards_counterexample:
  "SortSliceBetween insertion_sort
       \<lparr>buf = [0, 0, 0, 0, 1, 7], offset = 6, curSz = 6, maxSz = 10, fd = None, bufType = UseCalloc\<rparr>
       0 0 bytes_less
     = Inr \<lparr>buf = [0, 0, 0, 0, 1, 7], offset = 6, curSz = 6, maxSz = 10, fd = None, bufType = UseCalloc\<rparr>"
  by (simp add: SortSliceBetween_def)

end
